theory Spec2Isabelle
  imports Main "HOL-Library.Word"
begin

section \<open>AtomicSQL: the session registry of \<^verbatim>\<open>vinetrimmer/utils/AtomicSQL.py\<close>\<close>

text \<open>
  The class \<^verbatim>\<open>AtomicSQL\<close> keeps a dictionary from session ids to database
  connections, one lock for the whole registry and one lock per session. Its methods
  are embedded as functions on an explicit world: the object's three attributes, the
  state of everything outside the object that an action or a connection may change,
  the operating system's random bytes, and a chronological trace of the calls the
  methods make on their collaborators (locks, cursors, the action, \<^verbatim>\<open>print\<close>,
  \<^verbatim>\<open>time.sleep\<close>).

  A call that never comes back (a lock that is never released, a loop that never
  ends) has the value \<open>None\<close>; a call that comes back does so with \<open>Return\<close> or with
  \<open>Raise\<close>.
\<close>

subsection \<open>Python values\<close>

type_synonym bytes = "8 word list"

text \<open>
  An exception is its class and its message. \<open>SqliteOperationalError\<close> stands for
  every exception that \<^verbatim>\<open>except sqlite3.OperationalError\<close> catches (the class and
  its subclasses), \<open>OtherClass\<close> for every class that none of the others names.
\<close>

datatype exc_class =
  ValueError | KeyError | RuntimeError | SqliteOperationalError | OtherClass string

datatype exn = Exn (cls: exc_class) (msg: string)

datatype 'a outcome = Return 'a | Raise exn

text \<open>
  A cursor is an object of its own: the number tells the cursors apart. The events are
  the calls that the methods make on locks, connections, cursors, the action,
  \<^verbatim>\<open>print\<close> and \<^verbatim>\<open>time.sleep\<close>, in the order in which they are made.
\<close>

datatype cursor = Cursor nat

datatype lock_name = MasterLock | SessionLock bytes

datatype 'c event =
    Acquire lock_name
  | Release lock_name
  | CursorOpen 'c cursor
  | Invoke 'c cursor
  | Print string
  | Sleep int
  | CursorClose cursor

text \<open>\<^verbatim>\<open>repr\<close> of a bytes object, as the f-string conversion \<^verbatim>\<open>!r\<close> computes it.\<close>

definition hexdigit :: "nat \<Rightarrow> char" where
  "hexdigit n = ''0123456789abcdef'' ! n"

definition repr_quote :: "bytes \<Rightarrow> 8 word" where
  "repr_quote bs = (if 0x27 \<in> set bs \<and> 0x22 \<notin> set bs then 0x22 else 0x27)"

definition repr_byte :: "8 word \<Rightarrow> 8 word \<Rightarrow> string" where
  "repr_byte q c =
     (if c = q \<or> c = 0x5C then [CHR 0x5C, char_of (unat c)]
      else if c = 0x09 then [CHR 0x5C, CHR ''t'']
      else if c = 0x0A then [CHR 0x5C, CHR ''n'']
      else if c = 0x0D then [CHR 0x5C, CHR ''r'']
      else if c < 0x20 \<or> 0x7F \<le> c
        then [CHR 0x5C, CHR ''x'', hexdigit (unat c div 16), hexdigit (unat c mod 16)]
      else [char_of (unat c)])"

definition repr_bytes :: "bytes \<Rightarrow> string" where
  "repr_bytes bs =
     (let q = repr_quote bs
      in CHR ''b'' # char_of (unat q) # concat (map (repr_byte q) bs) @ [char_of (unat q)])"

text \<open>\<^verbatim>\<open>str\<close> of an integer, as the f-string prints \<^verbatim>\<open>{delay}\<close>.\<close>

function str_nat :: "nat \<Rightarrow> string" where
  "str_nat n =
     (if n < 10 then [hexdigit n] else str_nat (n div 10) @ [hexdigit (n mod 10)])"
  by pat_completeness auto
termination
  by (relation "measure id") auto

definition str_int :: "int \<Rightarrow> string" where
  "str_int i = (if i < 0 then CHR ''-'' # str_nat (nat (- i)) else str_nat (nat i))"

subsection \<open>The object and its world\<close>

text \<open>
  \<^verbatim>\<open>__init__\<close> creates \<^verbatim>\<open>master_lock\<close>, \<^verbatim>\<open>db\<close> and
  \<^verbatim>\<open>session_lock\<close>. A lock is its state: \<open>True\<close> when it is held.
\<close>

record 'c atomic_sql =
  master_lock :: bool
  db :: "bytes \<rightharpoonup> 'c"
  session_lock :: "bytes \<rightharpoonup> bool"

definition init :: "'c atomic_sql" where
  "init = \<lparr>master_lock = False, db = Map.empty, session_lock = Map.empty\<rparr>"

record ('c, 'e) world =
  self :: "'c atomic_sql"
  env :: 'e
  entropy :: "nat \<Rightarrow> 8 word"
  entropy_pos :: nat
  next_cursor :: nat
  trace :: "'c event list"

definition log_event :: "'c event \<Rightarrow> ('c, 'e) world \<Rightarrow> ('c, 'e) world" where
  "log_event ev w = w\<lparr>trace := trace w @ [ev]\<rparr>"

text \<open>\<^verbatim>\<open>os.urandom(n)\<close>: the next \<open>n\<close> bytes of the system's random source.\<close>

definition os_urandom :: "nat \<Rightarrow> ('c, 'e) world \<Rightarrow> bytes \<times> ('c, 'e) world" where
  "os_urandom n w =
     (map (entropy w) [entropy_pos w ..< entropy_pos w + n],
      w\<lparr>entropy_pos := entropy_pos w + n\<rparr>)"

text \<open>
  \<^verbatim>\<open>Lock.acquire()\<close> waits until the lock is free; with nobody else to free it,
  acquiring a held lock never returns. \<^verbatim>\<open>Lock.release()\<close> of a free lock raises
  \<^verbatim>\<open>RuntimeError\<close>.
\<close>

definition master_acquire :: "('c, 'e) world \<Rightarrow> ('c, 'e) world option" where
  "master_acquire w =
     (if master_lock (self w) then None
      else Some (log_event (Acquire MasterLock) (w\<lparr>self := (self w)\<lparr>master_lock := True\<rparr>\<rparr>)))"

definition master_release :: "('c, 'e) world \<Rightarrow> exn + ('c, 'e) world" where
  "master_release w =
     (if master_lock (self w)
      then Inr (log_event (Release MasterLock) (w\<lparr>self := (self w)\<lparr>master_lock := False\<rparr>\<rparr>))
      else Inl (Exn RuntimeError ''release unlocked lock''))"

definition session_acquire :: "bytes \<Rightarrow> ('c, 'e) world \<Rightarrow> (exn + ('c, 'e) world) option" where
  "session_acquire session_id w =
     (case session_lock (self w) session_id of
        None \<Rightarrow> Some (Inl (Exn KeyError (repr_bytes session_id)))
      | Some held \<Rightarrow>
          if held then None
          else Some (Inr (log_event (Acquire (SessionLock session_id))
                 (w\<lparr>self := (self w)\<lparr>session_lock := (session_lock (self w))(session_id \<mapsto> True)\<rparr>\<rparr>))))"

definition session_release :: "bytes \<Rightarrow> ('c, 'e) world \<Rightarrow> exn + ('c, 'e) world" where
  "session_release session_id w =
     (case session_lock (self w) session_id of
        None \<Rightarrow> Inl (Exn KeyError (repr_bytes session_id))
      | Some held \<Rightarrow>
          if held
          then Inr (log_event (Release (SessionLock session_id))
                 (w\<lparr>self := (self w)\<lparr>session_lock := (session_lock (self w))(session_id \<mapsto> False)\<rparr>\<rparr>))
          else Inl (Exn RuntimeError ''release unlocked lock''))"

text \<open>
  \<^verbatim>\<open>connection.cursor()\<close> makes a new cursor object, \<^verbatim>\<open>cursor.close()\<close>
  releases it; both are calls on the driver and are recorded in the trace. The driver is
  outside the repository: the two calls, \<^verbatim>\<open>print\<close> and \<^verbatim>\<open>time.sleep\<close> are
  taken to come back without raising.
\<close>

definition conn_cursor :: "'c \<Rightarrow> ('c, 'e) world \<Rightarrow> cursor \<times> ('c, 'e) world" where
  "conn_cursor conn w =
     (Cursor (next_cursor w),
      log_event (CursorOpen conn (Cursor (next_cursor w))) (w\<lparr>next_cursor := Suc (next_cursor w)\<rparr>))"

definition cursor_close :: "cursor \<Rightarrow> ('c, 'e) world \<Rightarrow> ('c, 'e) world" where
  "cursor_close cur w = log_event (CursorClose cur) w"

definition py_print :: "string \<Rightarrow> ('c, 'e) world \<Rightarrow> ('c, 'e) world" where
  "py_print s w = log_event (Print s) w"

definition time_sleep :: "int \<Rightarrow> ('c, 'e) world \<Rightarrow> ('c, 'e) world" where
  "time_sleep d w = log_event (Sleep d) w"

text \<open>
  An action is called with the connection and the cursor; it may change the world
  outside the registry (the database, counters of its own) and either returns a value or
  raises. It does not call back into the registry.
\<close>

type_synonym ('c, 'e, 'a) action = "'c \<Rightarrow> cursor \<Rightarrow> 'e \<Rightarrow> 'a outcome \<times> 'e"

definition call_action ::
  "('c, 'e, 'a) action \<Rightarrow> 'c \<Rightarrow> cursor \<Rightarrow> ('c, 'e) world \<Rightarrow> 'a outcome \<times> ('c, 'e) world" where
  "call_action action conn cur w =
     (case action conn cur (env w) of
        (r, e) \<Rightarrow> (r, (log_event (Invoke conn cur) w)\<lparr>env := e\<rparr>))"

subsection \<open>\<^verbatim>\<open>safe_execute\<close>\<close>

definition invalid_session_msg :: "bytes \<Rightarrow> string" where
  "invalid_session_msg session_id = ''Session ID '' @ repr_bytes session_id @ '' is invalid.''"

definition too_many_msg :: string where
  "too_many_msg = ''AtomicSQL.safe_execute failed too many times. Aborting.''"

definition retry_msg :: "int \<Rightarrow> string" where
  "retry_msg delay =
     ''AtomicSQL.safe_execute failed, retrying in '' @ str_int delay @ '' seconds...''"

text \<open>The \<^verbatim>\<open>while True\<close> loop of lines 54 to 74, with the counter \<open>failures\<close>.\<close>

partial_function (option) safe_execute_loop ::
  "bytes \<Rightarrow> ('c, 'e, 'a) action \<Rightarrow> int \<Rightarrow> ('c, 'e) world \<Rightarrow> ('a outcome \<times> ('c, 'e) world) option"
where
  "safe_execute_loop session_id action failures w =
     (case db (self w) session_id of
        None \<Rightarrow> Some (Raise (Exn KeyError (repr_bytes session_id)), w)
      | Some conn \<Rightarrow>
          (case conn_cursor conn w of (cur, w1) \<Rightarrow>
            (case call_action action conn cur w1 of
               (Return res, w2) \<Rightarrow> Some (Return res, cursor_close cur w2)
             | (Raise x, w2) \<Rightarrow>
                 if cls x = SqliteOperationalError
                 then
                   (let failures' = failures + 1;
                        delay = 3 * failures';
                        w3 = py_print (retry_msg delay) w2;
                        w4 = time_sleep delay w3;
                        w5 = cursor_close cur w4
                    in if failures' = 10
                       then Some (Raise (Exn ValueError too_many_msg), w5)
                       else safe_execute_loop session_id action failures' w5)
                 else Some (Raise x, cursor_close cur w2))))"

text \<open>The outer \<^verbatim>\<open>finally\<close> of lines 75 to 77.\<close>

definition release_locks ::
  "bytes \<Rightarrow> 'a outcome \<times> ('c, 'e) world \<Rightarrow> 'a outcome \<times> ('c, 'e) world" where
  "release_locks session_id rw =
     (case rw of (r, w) \<Rightarrow>
        (case session_release session_id w of
           Inl x \<Rightarrow> (Raise x, w)
         | Inr w1 \<Rightarrow>
             (case master_release w1 of
                Inl x \<Rightarrow> (Raise x, w1)
              | Inr w2 \<Rightarrow> (r, w2))))"

definition safe_execute ::
  "bytes \<Rightarrow> ('c, 'e, 'a) action \<Rightarrow> ('c, 'e) world \<Rightarrow> ('a outcome \<times> ('c, 'e) world) option" where
  "safe_execute session_id action w =
     (if db (self w) session_id = None
      then Some (Raise (Exn ValueError (invalid_session_msg session_id)), w)
      else
        (case master_acquire w of
           None \<Rightarrow> None
         | Some w1 \<Rightarrow>
             (case session_acquire session_id w1 of
                None \<Rightarrow> None
              | Some (Inl x) \<Rightarrow> Some (Raise x, w1)
              | Some (Inr w2) \<Rightarrow>
                  map_option (release_locks session_id)
                    (safe_execute_loop session_id action 0 w2))))"

subsection \<open>\<^verbatim>\<open>load\<close>\<close>

text \<open>
  The loop of lines 30 to 32: \<^verbatim>\<open>session_id\<close> starts as \<^verbatim>\<open>None\<close>, and a
  bytes object is false exactly when it is empty.
\<close>

partial_function (option) load_loop ::
  "bytes option \<Rightarrow> ('c, 'e) world \<Rightarrow> (bytes \<times> ('c, 'e) world) option"
where
  "load_loop session_id w =
     (case session_id of
        None \<Rightarrow> (case os_urandom 16 w of (b, w1) \<Rightarrow> load_loop (Some b) w1)
      | Some sid \<Rightarrow>
          if sid = [] \<or> db (self w) sid \<noteq> None
          then (case os_urandom 16 w of (b, w1) \<Rightarrow> load_loop (Some b) w1)
          else Some (sid, w))"

definition store_connection :: "bytes \<Rightarrow> 'c \<Rightarrow> ('c, 'e) world \<Rightarrow> ('c, 'e) world" where
  "store_connection session_id connection w =
     w\<lparr>self := (self w)\<lparr>db := (db (self w))(session_id \<mapsto> connection)\<rparr>\<rparr>"

definition store_lock :: "bytes \<Rightarrow> ('c, 'e) world \<Rightarrow> ('c, 'e) world" where
  "store_lock session_id w =
     w\<lparr>self := (self w)\<lparr>session_lock := (session_lock (self w))(session_id \<mapsto> False)\<rparr>\<rparr>"

definition load :: "'c \<Rightarrow> ('c, 'e) world \<Rightarrow> (bytes outcome \<times> ('c, 'e) world) option" where
  "load connection w =
     (case master_acquire w of
        None \<Rightarrow> None
      | Some w1 \<Rightarrow>
          (case load_loop None w1 of
             None \<Rightarrow> None
           | Some (session_id, w2) \<Rightarrow>
               (let w3 = store_connection session_id connection w2;
                    w4 = store_lock session_id w3
                in case master_release w4 of
                     Inl x \<Rightarrow> Some (Raise x, w4)
                   | Inr w5 \<Rightarrow> Some (Return session_id, w5))))"

subsection \<open>\<^verbatim>\<open>commit\<close>\<close>

text \<open>
  \<^verbatim>\<open>db.commit()\<close> is the driver's; it is a parameter here. The action ignores the
  cursor, and \<^verbatim>\<open>commit\<close> ignores what \<^verbatim>\<open>safe_execute\<close> returns.
\<close>

definition commit ::
  "('c \<Rightarrow> 'e \<Rightarrow> 'r outcome \<times> 'e) \<Rightarrow> bytes \<Rightarrow> ('c, 'e) world \<Rightarrow> (bool outcome \<times> ('c, 'e) world) option"
where
  "commit db_commit session_id w =
     (case safe_execute session_id (\<lambda>db cursor. db_commit db) w of
        None \<Rightarrow> None
      | Some (Return res, w1) \<Rightarrow> Some (Return True, w1)
      | Some (Raise x, w1) \<Rightarrow> Some (Raise x, w1))"

subsection \<open>Threads\<close>

text \<open>
  Several threads may be inside the methods at once. A thread makes one call,
  \<^verbatim>\<open>load(connection)\<close> or \<^verbatim>\<open>safe_execute(session_id, action)\<close>
  (\<^verbatim>\<open>commit\<close> is \<^verbatim>\<open>safe_execute\<close> with the action that commits), and is at
  one of the points of the source named by their line: \<open>L27\<close> is about to run line 27,
  and so on; \<open>L59\<close> is inside the action, between its call and its coming back; \<open>L63\<close>
  has the action's outcome and runs the handlers and the inner \<^verbatim>\<open>finally\<close>.
  \<open>thread_step\<close> runs a thread up to its next point, on the same operations as the
  functions above; it is \<open>None\<close> when the thread has to wait (a lock is held) or has
  finished. Threads interleave at these points: a configuration is reachable from a
  world \<open>ws\<close> when it comes from \<open>ws\<close>, with every thread at the start of its
  call, by steps of any threads in any order.
\<close>

datatype ('c, 'e, 'a) job =
    LoadJob 'c
  | ExecJob bytes "('c, 'e, 'a) action"

datatype 'a result = LoadResult "bytes outcome" | ExecResult "'a outcome"

datatype ('c, 'a) pc =
    L27
  | L30
  | L33 bytes
  | L36 bytes
  | L39 bytes
  | L48
  | L50
  | L51
  | L57 int
  | L59 int 'c cursor
  | L63 int cursor "'a outcome"
  | L76 "'a outcome"
  | L77 "'a outcome"
  | Done "'a result"

fun start_pc :: "('c, 'e, 'a) job \<Rightarrow> ('c, 'a) pc" where
  "start_pc (LoadJob connection) = L27"
| "start_pc (ExecJob session_id action) = L48"

fun thread_step ::
  "('c, 'e, 'a) job \<Rightarrow> ('c, 'a) pc \<Rightarrow> ('c, 'e) world \<Rightarrow> (('c, 'a) pc \<times> ('c, 'e) world) option"
where
  "thread_step (LoadJob connection) L27 w =
     (case master_acquire w of None \<Rightarrow> None | Some w1 \<Rightarrow> Some (L30, w1))"
| "thread_step (LoadJob connection) L30 w =
     (case load_loop None w of None \<Rightarrow> None | Some (session_id, w1) \<Rightarrow> Some (L33 session_id, w1))"
| "thread_step (LoadJob connection) (L33 session_id) w =
     Some (L36 session_id, store_connection session_id connection w)"
| "thread_step (LoadJob connection) (L36 session_id) w =
     Some (L39 session_id, store_lock session_id w)"
| "thread_step (LoadJob connection) (L39 session_id) w =
     (case master_release w of
        Inl x \<Rightarrow> Some (Done (LoadResult (Raise x)), w)
      | Inr w1 \<Rightarrow> Some (Done (LoadResult (Return session_id)), w1))"
| "thread_step (ExecJob session_id action) L48 w =
     (if db (self w) session_id = None
      then Some (Done (ExecResult (Raise (Exn ValueError (invalid_session_msg session_id)))), w)
      else Some (L50, w))"
| "thread_step (ExecJob session_id action) L50 w =
     (case master_acquire w of None \<Rightarrow> None | Some w1 \<Rightarrow> Some (L51, w1))"
| "thread_step (ExecJob session_id action) L51 w =
     (case session_acquire session_id w of
        None \<Rightarrow> None
      | Some (Inl x) \<Rightarrow> Some (Done (ExecResult (Raise x)), w)
      | Some (Inr w1) \<Rightarrow> Some (L57 0, w1))"
| "thread_step (ExecJob session_id action) (L57 failures) w =
     (case db (self w) session_id of
        None \<Rightarrow> Some (L76 (Raise (Exn KeyError (repr_bytes session_id))), w)
      | Some conn \<Rightarrow>
          (case conn_cursor conn w of (cur, w1) \<Rightarrow>
             Some (L59 failures conn cur, log_event (Invoke conn cur) w1)))"
| "thread_step (ExecJob session_id action) (L59 failures conn cur) w =
     (case action conn cur (env w) of (r, e) \<Rightarrow> Some (L63 failures cur r, w\<lparr>env := e\<rparr>))"
| "thread_step (ExecJob session_id action) (L63 failures cur r) w =
     (case r of
        Return res \<Rightarrow> Some (L76 (Return res), cursor_close cur w)
      | Raise x \<Rightarrow>
          if cls x = SqliteOperationalError
          then
            (let failures' = failures + 1;
                 delay = 3 * failures';
                 w3 = py_print (retry_msg delay) w;
                 w4 = time_sleep delay w3;
                 w5 = cursor_close cur w4
             in if failures' = 10
                then Some (L76 (Raise (Exn ValueError too_many_msg)), w5)
                else Some (L57 failures', w5))
          else Some (L76 (Raise x), cursor_close cur w))"
| "thread_step (ExecJob session_id action) (L76 r) w =
     (case session_release session_id w of
        Inl x \<Rightarrow> Some (Done (ExecResult (Raise x)), w)
      | Inr w1 \<Rightarrow> Some (L77 r, w1))"
| "thread_step (ExecJob session_id action) (L77 r) w =
     (case master_release w of
        Inl x \<Rightarrow> Some (Done (ExecResult (Raise x)), w)
      | Inr w1 \<Rightarrow> Some (Done (ExecResult r), w1))"
| "thread_step j p w = None"

type_synonym ('c, 'e, 'a) config = "('c, 'e) world \<times> (nat \<Rightarrow> ('c, 'a) pc)"

inductive reachable ::
  "(nat \<Rightarrow> ('c, 'e, 'a) job) \<Rightarrow> ('c, 'e) world \<Rightarrow> ('c, 'e, 'a) config \<Rightarrow> bool"
  for jobs :: "nat \<Rightarrow> ('c, 'e, 'a) job" and ws :: "('c, 'e) world"
where
  start: "reachable jobs ws (ws, \<lambda>t. start_pc (jobs t))"
| step: "reachable jobs ws (w, pcs) \<Longrightarrow> thread_step (jobs t) (pcs t) w = Some (p, w') \<Longrightarrow>
         reachable jobs ws (w', pcs(t := p))"

section \<open>Vocabulary of the statements\<close>

text \<open>
  The worlds, event lists and trace readers that the theorems below speak about. None of
  them is part of the program; they name what the program is observed to do.
\<close>

subsection \<open>Attempts and their events\<close>

text \<open>
  The world after one turn of the loop that added the events \<open>evs\<close> and left the
  outside world in state \<open>e\<close>; the events of a turn whose action raised the busy error
  for the k-th time (on cursor number \<open>n\<close>); the events of a turn whose action returned
  or raised another exception.
\<close>

definition attempt_done :: "'c event list \<Rightarrow> 'e \<Rightarrow> ('c, 'e) world \<Rightarrow> ('c, 'e) world" where
  "attempt_done evs e w = w\<lparr>next_cursor := Suc (next_cursor w), env := e, trace := trace w @ evs\<rparr>"

definition busy_attempt :: "'c \<Rightarrow> nat \<Rightarrow> int \<Rightarrow> 'c event list" where
  "busy_attempt conn n k =
     [CursorOpen conn (Cursor n), Invoke conn (Cursor n), Print (retry_msg (3 * k)),
      Sleep (3 * k), CursorClose (Cursor n)]"

definition final_attempt :: "'c \<Rightarrow> nat \<Rightarrow> 'c event list" where
  "final_attempt conn n = [CursorOpen conn (Cursor n), Invoke conn (Cursor n), CursorClose (Cursor n)]"

text \<open>
  The outcomes of the first \<open>k\<close> calls of an action made by one
  \<^verbatim>\<open>safe_execute\<close>: the calls get the cursors number \<open>n\<close>, \<open>n + 1\<close>, ... and each
  finds the outside world as the call before left it.
\<close>

fun run_action ::
  "('c, 'e, 'a) action \<Rightarrow> 'c \<Rightarrow> nat \<Rightarrow> 'e \<Rightarrow> nat \<Rightarrow> 'a outcome list \<times> 'e" where
  "run_action action conn n e 0 = ([], e)"
| "run_action action conn n e (Suc k) =
     (case action conn (Cursor n) e of
        (r, e1) \<Rightarrow> (case run_action action conn (Suc n) e1 k of (rs, e2) \<Rightarrow> (r # rs, e2)))"

subsection \<open>Reading a trace\<close>

text \<open>
  \<open>cursor_scan\<close> follows the cursor events of a trace: \<open>Idle\<close> when no cursor is open,
  \<open>Fresh cur\<close> when \<open>cur\<close> has been created and not yet given to the action, \<open>Used cur\<close>
  after the action has been called with it. It is \<open>None\<close> as soon as a cursor is
  created while another is open, the action is called with anything but the fresh
  cursor, or a cursor that is not the open one is closed.
\<close>

datatype cursor_state = Idle | Fresh cursor | Used cursor

fun cursor_scan :: "cursor_state \<Rightarrow> 'c event list \<Rightarrow> cursor_state option" where
  "cursor_scan s [] = Some s"
| "cursor_scan s (CursorOpen c cur # evs) =
     (if s = Idle then cursor_scan (Fresh cur) evs else None)"
| "cursor_scan s (Invoke c cur # evs) =
     (if s = Fresh cur then cursor_scan (Used cur) evs else None)"
| "cursor_scan s (CursorClose cur # evs) =
     (if s = Fresh cur \<or> s = Used cur then cursor_scan Idle evs else None)"
| "cursor_scan s (Acquire l # evs) = cursor_scan s evs"
| "cursor_scan s (Release l # evs) = cursor_scan s evs"
| "cursor_scan s (Print m # evs) = cursor_scan s evs"
| "cursor_scan s (Sleep d # evs) = cursor_scan s evs"

text \<open>
  The cursors created, the calls of the action, the sleeps and the lock events of a
  trace, each in order.
\<close>

fun opened :: "'c event list \<Rightarrow> ('c \<times> cursor) list" where
  "opened [] = []"
| "opened (CursorOpen c cur # evs) = (c, cur) # opened evs"
| "opened (ev # evs) = opened evs"

fun invoked :: "'c event list \<Rightarrow> ('c \<times> cursor) list" where
  "invoked [] = []"
| "invoked (Invoke c cur # evs) = (c, cur) # invoked evs"
| "invoked (ev # evs) = invoked evs"

fun sleeps :: "'c event list \<Rightarrow> int list" where
  "sleeps [] = []"
| "sleeps (Sleep d # evs) = d # sleeps evs"
| "sleeps (ev # evs) = sleeps evs"

fun lock_events :: "'c event list \<Rightarrow> 'c event list" where
  "lock_events [] = []"
| "lock_events (Acquire l # evs) = Acquire l # lock_events evs"
| "lock_events (Release l # evs) = Release l # lock_events evs"
| "lock_events (ev # evs) = lock_events evs"

subsection \<open>Calls\<close>

text \<open>
  What the loop leaves behind, and what a whole call of \<^verbatim>\<open>safe_execute\<close> leaves
  behind (\<open>call_post\<close>); the world just after the two locks are taken (\<open>enter\<close>) and
  just after they are released (\<open>leave\<close>). \<open>idle session_id conn w\<close>: the session
  is registered with connection \<open>conn\<close>, and the registry lock and the session's lock are
  free, so that the call need not wait. \<open>raises_busy\<close>: the outcome is an exception that
  \<^verbatim>\<open>except sqlite3.OperationalError\<close> catches.
\<close>

definition loop_post ::
  "bytes \<Rightarrow> ('c, 'e) world \<Rightarrow> ('c, 'e) world \<Rightarrow> 'c event list \<Rightarrow> bool" where
  "loop_post sid w w' evs \<longleftrightarrow>
     self w' = self w \<and> entropy w' = entropy w \<and> entropy_pos w' = entropy_pos w \<and>
     trace w' = trace w @ evs \<and>
     cursor_scan Idle evs = Some Idle \<and>
     next_cursor w \<le> next_cursor w' \<and>
     map snd (opened evs) = map Cursor [next_cursor w ..< next_cursor w'] \<and>
     (\<forall>c \<in> fst ` set (opened evs). db (self w) sid = Some c) \<and>
     invoked evs = opened evs \<and>
     lock_events evs = []"

definition enter :: "bytes \<Rightarrow> ('c, 'e) world \<Rightarrow> ('c, 'e) world" where
  "enter sid w =
     w\<lparr>self := (self w)\<lparr>master_lock := True,
                          session_lock := (session_lock (self w))(sid \<mapsto> True)\<rparr>,
       trace := trace w @ [Acquire MasterLock, Acquire (SessionLock sid)]\<rparr>"

definition leave :: "bytes \<Rightarrow> ('c, 'e) world \<Rightarrow> ('c, 'e) world" where
  "leave sid w =
     w\<lparr>self := (self w)\<lparr>master_lock := False,
                          session_lock := (session_lock (self w))(sid \<mapsto> False)\<rparr>,
       trace := trace w @ [Release (SessionLock sid), Release MasterLock]\<rparr>"

definition idle :: "bytes \<Rightarrow> 'c \<Rightarrow> ('c, 'e) world \<Rightarrow> bool" where
  "idle sid conn w \<longleftrightarrow>
     db (self w) sid = Some conn \<and> \<not> master_lock (self w) \<and> session_lock (self w) sid = Some False"

definition raises_busy :: "'a outcome \<Rightarrow> bool" where
  "raises_busy r = (case r of Return v \<Rightarrow> False | Raise x \<Rightarrow> cls x = SqliteOperationalError)"

definition busy_attempts :: "'c \<Rightarrow> nat \<Rightarrow> int \<Rightarrow> nat \<Rightarrow> 'c event list" where
  "busy_attempts conn n f k =
     concat (map (\<lambda>j. busy_attempt conn (n + j) (f + 1 + int j)) [0..<k])"

definition call_post ::
  "bytes \<Rightarrow> ('c, 'e) world \<Rightarrow> ('c, 'e) world \<Rightarrow> 'c event list \<Rightarrow> bool" where
  "call_post sid w w' evs \<longleftrightarrow>
     db (self w') = db (self w) \<and>
     trace w' = trace w @ evs \<and>
     cursor_scan Idle evs = Some Idle \<and>
     map snd (opened evs) = map Cursor [next_cursor w ..< next_cursor w'] \<and>
     (\<forall>c \<in> fst ` set (opened evs). db (self w) sid = Some c) \<and>
     invoked evs = opened evs"

text \<open>
  A caller's sequence of calls on one registry. \<open>run_calls\<close> makes them one after the
  other, whatever each one returns or raises, and collects the session ids that the
  \<^verbatim>\<open>load\<close> calls return.
\<close>

datatype ('c, 'e, 'a) call =
    Load 'c
  | SafeExecute bytes "('c, 'e, 'a) action"
  | Commit bytes

definition returned :: "'a outcome \<Rightarrow> 'a list" where
  "returned r = (case r of Return v \<Rightarrow> [v] | Raise x \<Rightarrow> [])"

fun run_calls ::
  "('c \<Rightarrow> 'e \<Rightarrow> 'r outcome \<times> 'e) \<Rightarrow> ('c, 'e, 'a) call list \<Rightarrow> ('c, 'e) world \<Rightarrow>
     (bytes list \<times> ('c, 'e) world) option" where
  "run_calls db_commit [] w = Some ([], w)"
| "run_calls db_commit (Load connection # cs) w =
     (case load connection w of
        None \<Rightarrow> None
      | Some (r, w1) \<Rightarrow>
          (case run_calls db_commit cs w1 of
             None \<Rightarrow> None
           | Some (toks, w2) \<Rightarrow> Some (returned r @ toks, w2)))"
| "run_calls db_commit (SafeExecute session_id action # cs) w =
     (case safe_execute session_id action w of
        None \<Rightarrow> None
      | Some (r, w1) \<Rightarrow> run_calls db_commit cs w1)"
| "run_calls db_commit (Commit session_id # cs) w =
     (case commit db_commit session_id w of
        None \<Rightarrow> None
      | Some (r, w1) \<Rightarrow> run_calls db_commit cs w1)"

text \<open>
  Where a thread holds the registry lock, where it is inside its action, and a thread
  running with no other thread taking steps.
\<close>

fun holds_master :: "('c, 'a) pc \<Rightarrow> bool" where
  "holds_master L30 = True"
| "holds_master (L33 s) = True"
| "holds_master (L36 s) = True"
| "holds_master (L39 s) = True"
| "holds_master L51 = True"
| "holds_master (L57 f) = True"
| "holds_master (L59 f c cur) = True"
| "holds_master (L63 f cur r) = True"
| "holds_master (L76 r) = True"
| "holds_master (L77 r) = True"
| "holds_master p = False"

fun in_action :: "('c, 'a) pc \<Rightarrow> bool" where
  "in_action (L59 f c cur) = True"
| "in_action p = False"

definition mutex_inv :: "('c, 'e, 'a) config \<Rightarrow> bool" where
  "mutex_inv cfg \<longleftrightarrow>
     (\<forall>t. holds_master (snd cfg t) \<longrightarrow> master_lock (self (fst cfg))) \<and>
     (\<forall>t1 t2. holds_master (snd cfg t1) \<longrightarrow> holds_master (snd cfg t2) \<longrightarrow> t1 = t2)"

fun run_alone ::
  "nat \<Rightarrow> ('c, 'e, 'a) job \<Rightarrow> ('c, 'a) pc \<Rightarrow> ('c, 'e) world \<Rightarrow>
     (('c, 'a) pc \<times> ('c, 'e) world) option" where
  "run_alone 0 j p w = Some (p, w)"
| "run_alone (Suc n) j p w =
     (case thread_step j p w of None \<Rightarrow> None | Some (p', w') \<Rightarrow> run_alone n j p' w')"

text \<open>
  Inside the \<^verbatim>\<open>try\<close> of \<^verbatim>\<open>safe_execute\<close> up to the release of the session's
  lock; past the test of line 48 and before the \<^verbatim>\<open>try\<close>; what holds of these
  threads in every reachable configuration; and a registry in which every session has
  its lock.
\<close>

fun in_body :: "('c, 'a) pc \<Rightarrow> bool" where
  "in_body (L57 f) = True"
| "in_body (L59 f c cur) = True"
| "in_body (L63 f cur r) = True"
| "in_body (L76 r) = True"
| "in_body p = False"

fun checked :: "('c, 'a) pc \<Rightarrow> bool" where
  "checked L50 = True"
| "checked L51 = True"
| "checked p = False"

definition release_inv ::
  "(nat \<Rightarrow> ('c, 'e, 'a) job) \<Rightarrow> ('c, 'e, 'a) config \<Rightarrow> bool" where
  "release_inv jobs cfg \<longleftrightarrow>
     (\<forall>t sid a. jobs t = ExecJob sid a \<longrightarrow> in_body (snd cfg t) \<longrightarrow>
        session_lock (self (fst cfg)) sid = Some True) \<and>
     (\<forall>t sid a. jobs t = ExecJob sid a \<longrightarrow> checked (snd cfg t) \<longrightarrow>
        db (self (fst cfg)) sid \<noteq> None) \<and>
     (\<forall>k. db (self (fst cfg)) k \<noteq> None \<longrightarrow>
        session_lock (self (fst cfg)) k \<noteq> None \<or> (\<exists>t. snd cfg t = L36 k))"

definition keys_have_locks :: "('c, 'e) world \<Rightarrow> bool" where
  "keys_have_locks w \<longleftrightarrow> dom (db (self w)) \<subseteq> dom (session_lock (self w))"

text \<open>
  A registry at rest: no method is running, so no lock is held, and the sessions are
  the keys of both dictionaries.
\<close>

definition quiescent :: "('c, 'e) world \<Rightarrow> bool" where
  "quiescent w \<longleftrightarrow>
     \<not> master_lock (self w) \<and>
     dom (db (self w)) = dom (session_lock (self w)) \<and>
     (\<forall>k. session_lock (self w) k \<noteq> Some True)"

subsection \<open>Concrete inputs\<close>

definition demo_sid :: bytes where
  "demo_sid = [1, 2, 3, 4, 5, 6, 7, 8, 9, 10, 11, 12, 13, 14, 15, 16]"

definition unknown_sid :: bytes where
  "unknown_sid = [16, 15, 14, 13, 12, 11, 10, 9, 8, 7, 6, 5, 4, 3, 2, 1]"

definition demo_world :: "(string, nat) world" where
  "demo_world =
     \<lparr>self = \<lparr>master_lock = False, db = [demo_sid \<mapsto> ''conn''],
              session_lock = [demo_sid \<mapsto> False]\<rparr>,
      env = 0, entropy = (\<lambda>n. of_nat n), entropy_pos = 0, next_cursor = 0, trace = []\<rparr>"

definition locked_exn :: exn where
  "locked_exn = Exn SqliteOperationalError ''database is locked''"

definition always_busy :: "(string, nat, nat) action" where
  "always_busy conn cur e = (Raise locked_exn, Suc e)"

definition busy_until :: "nat \<Rightarrow> (string, nat, nat) action" where
  "busy_until k conn cur e = (if e < k then Raise locked_exn else Return 42, Suc e)"

definition integrity_exn :: exn where
  "integrity_exn = Exn (OtherClass ''sqlite3.IntegrityError'') ''UNIQUE constraint failed''"

definition always_integrity :: "(string, nat, nat) action" where
  "always_integrity conn cur e = (Raise integrity_exn, Suc e)"

definition busy_then_integrity :: "nat \<Rightarrow> (string, nat, nat) action" where
  "busy_then_integrity k conn cur e =
     (if e < k then Raise locked_exn else Raise integrity_exn, Suc e)"

definition demo_commit :: "string \<Rightarrow> nat \<Rightarrow> unit outcome \<times> nat" where
  "demo_commit conn e = (Return (), Suc e)"

definition fresh_world :: "(string, nat) world" where
  "fresh_world =
     \<lparr>self = init, env = 0,
      entropy = (\<lambda>n. if n < 32 then of_nat (n mod 16) else of_nat n),
      entropy_pos = 0, next_cursor = 0, trace = []\<rparr>"

definition demo_jobs :: "nat \<Rightarrow> (string, nat, nat) job" where
  "demo_jobs t = (if t = 0 then ExecJob demo_sid always_busy else ExecJob demo_sid (busy_until 2))"

declare load_loop.simps [code]

declare safe_execute_loop.simps [code]

section \<open>Properties\<close>

lemmas world_ops = conn_cursor_def call_action_def cursor_close_def py_print_def time_sleep_def
  log_event_def attempt_done_def

lemma loop_return:
  assumes "db (self w) sid = Some conn"
    and "action conn (Cursor (next_cursor w)) (env w) = (Return v, e)"
  shows "safe_execute_loop sid action f w =
           Some (Return v, attempt_done (final_attempt conn (next_cursor w)) e w)"
  using assms
  by (subst safe_execute_loop.simps) (simp add: world_ops final_attempt_def)

lemma loop_other:
  assumes "db (self w) sid = Some conn"
    and "action conn (Cursor (next_cursor w)) (env w) = (Raise x, e)"
    and "cls x \<noteq> SqliteOperationalError"
  shows "safe_execute_loop sid action f w =
           Some (Raise x, attempt_done (final_attempt conn (next_cursor w)) e w)"
  using assms
  by (subst safe_execute_loop.simps) (simp add: world_ops final_attempt_def)

lemma loop_busy:
  assumes "db (self w) sid = Some conn"
    and "action conn (Cursor (next_cursor w)) (env w) = (Raise x, e)"
    and "cls x = SqliteOperationalError"
  shows "safe_execute_loop sid action f w =
           (if f + 1 = 10
            then Some (Raise (Exn ValueError too_many_msg),
                       attempt_done (busy_attempt conn (next_cursor w) (f + 1)) e w)
            else safe_execute_loop sid action (f + 1)
                       (attempt_done (busy_attempt conn (next_cursor w) (f + 1)) e w))"
  using assms
  by (subst safe_execute_loop.simps) (simp add: world_ops busy_attempt_def Let_def)

lemma loop_no_session:
  assumes "db (self w) sid = None"
  shows "safe_execute_loop sid action f w = Some (Raise (Exn KeyError (repr_bytes sid)), w)"
  using assms
  by (subst safe_execute_loop.simps) simp

lemma cursor_scan_append:
  "cursor_scan s (xs @ ys) = (case cursor_scan s xs of None \<Rightarrow> None | Some s' \<Rightarrow> cursor_scan s' ys)"
  by (induction s xs rule: cursor_scan.induct) auto

lemma opened_append: "opened (xs @ ys) = opened xs @ opened ys"
  by (induction xs rule: opened.induct) auto

lemma invoked_append: "invoked (xs @ ys) = invoked xs @ invoked ys"
  by (induction xs rule: invoked.induct) auto

lemma sleeps_append: "sleeps (xs @ ys) = sleeps xs @ sleeps ys"
  by (induction xs rule: sleeps.induct) auto

lemma lock_events_append: "lock_events (xs @ ys) = lock_events xs @ lock_events ys"
  by (induction xs rule: lock_events.induct) auto

lemma loop_post_refl: "loop_post sid w w []"
  by (simp add: loop_post_def)

lemma loop_post_final:
  "db (self w) sid = Some conn \<Longrightarrow>
   loop_post sid w (attempt_done (final_attempt conn (next_cursor w)) e w)
     (final_attempt conn (next_cursor w))"
  by (simp add: loop_post_def attempt_done_def final_attempt_def)

lemma loop_post_busy:
  "db (self w) sid = Some conn \<Longrightarrow>
   loop_post sid w (attempt_done (busy_attempt conn (next_cursor w) k) e w)
     (busy_attempt conn (next_cursor w) k)"
  by (simp add: loop_post_def attempt_done_def busy_attempt_def)

lemma loop_post_trans:
  assumes "loop_post sid w w1 xs" and "loop_post sid w1 w2 ys"
  shows "loop_post sid w w2 (xs @ ys)"
proof -
  have "[next_cursor w ..< next_cursor w2] =
        [next_cursor w ..< next_cursor w1] @ [next_cursor w1 ..< next_cursor w2]"
    using assms unfolding loop_post_def by (metis le_add_diff_inverse upt_add_eq_append)
  with assms show ?thesis
    by (auto simp: loop_post_def cursor_scan_append opened_append invoked_append
        lock_events_append)
qed

lemma loop_spec:
  "0 \<le> f \<Longrightarrow> f < 10 \<Longrightarrow>
   \<exists>r w' evs. safe_execute_loop sid a f w = Some (r, w') \<and> loop_post sid w w' evs"
proof (induction "nat (10 - f)" arbitrary: f w)
  case 0
  then show ?case by simp
next
  case (Suc n)
  show ?case
  proof (cases "db (self w) sid")
    case None
    then show ?thesis using loop_post_refl by (fastforce simp: loop_no_session)
  next
    case (Some conn)
    obtain r e where act: "a conn (Cursor (next_cursor w)) (env w) = (r, e)"
      by (cases "a conn (Cursor (next_cursor w)) (env w)")
    show ?thesis
    proof (cases r)
      case (Return v)
      with Some act show ?thesis using loop_post_final [OF Some] by (fastforce simp: loop_return)
    next
      case (Raise x)
      show ?thesis
      proof (cases "cls x = SqliteOperationalError")
        case False
        with Some act Raise show ?thesis
          using loop_post_final [OF Some] by (fastforce simp: loop_other)
      next
        case True
        let ?evs = "busy_attempt conn (next_cursor w) (f + 1)"
        let ?w1 = "attempt_done ?evs e w"
        have post1: "loop_post sid w ?w1 ?evs"
          by (rule loop_post_busy [OF Some])
        have eq: "safe_execute_loop sid a f w =
           (if f + 1 = 10 then Some (Raise (Exn ValueError too_many_msg), ?w1)
            else safe_execute_loop sid a (f + 1) ?w1)"
          using Some act Raise True by (simp add: loop_busy [where x = x and e = e])
        show ?thesis
        proof (cases "f + 1 = 10")
          case True
          with eq post1 show ?thesis by auto
        next
          case False
          have "n = nat (10 - (f + 1))" "0 \<le> f + 1" "f + 1 < 10"
            using Suc.hyps(2) Suc.prems False by linarith+
          from Suc.hyps(1) [OF this, of ?w1] obtain r' w' ys where
            "safe_execute_loop sid a (f + 1) ?w1 = Some (r', w')" "loop_post sid ?w1 w' ys"
            by blast
          with eq False loop_post_trans [OF post1] show ?thesis by auto
        qed
      qed
    qed
  qed
qed

lemma enter_simps [simp]:
  "db (self (enter sid w)) = db (self w)"
  "env (enter sid w) = env w"
  "next_cursor (enter sid w) = next_cursor w"
  "trace (enter sid w) = trace w @ [Acquire MasterLock, Acquire (SessionLock sid)]"
  by (simp_all add: enter_def)

lemma safe_execute_enter:
  assumes "idle sid conn w"
  shows "safe_execute sid a w =
           map_option (release_locks sid) (safe_execute_loop sid a 0 (enter sid w))"
  using assms
  by (simp add: safe_execute_def idle_def master_acquire_def session_acquire_def log_event_def
      enter_def)

lemma release_locks_leave:
  assumes "self w2 = self (enter sid w)"
  shows "release_locks sid (r, w2) = (r, leave sid w2)"
  using assms
  by (simp add: release_locks_def session_release_def master_release_def log_event_def
      enter_def leave_def)

lemma leave_enter_self:
  assumes "idle sid conn w" and "self w2 = self (enter sid w)"
  shows "self (leave sid w2) = self w"
  using assms by (simp add: idle_def leave_def enter_def map_upd_triv)

lemma safe_execute_loop_result:
  assumes "idle sid conn w"
    and "safe_execute_loop sid a 0 (enter sid w) = Some (r, w2)"
    and "self w2 = self (enter sid w)"
  shows "safe_execute sid a w = Some (r, leave sid w2)"
  using assms by (simp add: safe_execute_enter release_locks_leave)

lemma leave_simps [simp]:
  "env (leave sid w) = env w"
  "next_cursor (leave sid w) = next_cursor w"
  "entropy (leave sid w) = entropy w"
  "entropy_pos (leave sid w) = entropy_pos w"
  "trace (leave sid w) = trace w @ [Release (SessionLock sid), Release MasterLock]"
  by (simp_all add: leave_def)

lemma attempt_done_simps [simp]:
  "self (attempt_done evs e w) = self w"
  "env (attempt_done evs e w) = e"
  "next_cursor (attempt_done evs e w) = Suc (next_cursor w)"
  "trace (attempt_done evs e w) = trace w @ evs"
  by (simp_all add: attempt_done_def)

lemma safe_execute_single_attempt:
  assumes "idle session_id conn w"
    and "action conn (Cursor (next_cursor w)) (env w) = (r, e)"
    and "\<not> raises_busy r"
  shows "\<exists>w'. safe_execute session_id action w = Some (r, w') \<and>
           self w' = self w \<and> env w' = e \<and>
           trace w' = trace w @
             [Acquire MasterLock, Acquire (SessionLock session_id),
              CursorOpen conn (Cursor (next_cursor w)),
              Invoke conn (Cursor (next_cursor w)),
              CursorClose (Cursor (next_cursor w)),
              Release (SessionLock session_id), Release MasterLock]"
proof -
  let ?w1 = "enter session_id w"
  let ?w2 = "attempt_done (final_attempt conn (next_cursor w)) e ?w1"
  have conn: "db (self ?w1) session_id = Some conn"
    using assms(1) by (simp add: idle_def)
  have "safe_execute_loop session_id action 0 ?w1 = Some (r, ?w2)"
  proof (cases r)
    case (Return v)
    then show ?thesis using loop_return [OF conn, of action v e 0] assms(2) by simp
  next
    case (Raise x)
    then show ?thesis
      using loop_other [OF conn, of action x e 0] assms(2,3) by (simp add: raises_busy_def)
  qed
  then have "safe_execute session_id action w = Some (r, leave session_id ?w2)"
    by (rule safe_execute_loop_result [OF assms(1)]) simp
  moreover have "self (leave session_id ?w2) = self w"
    by (rule leave_enter_self [OF assms(1)]) simp
  ultimately show ?thesis
    by (simp add: final_attempt_def)
qed

lemma busy_attempts_Suc:
  "busy_attempts conn n f (Suc k) =
     busy_attempt conn n (f + 1) @ busy_attempts conn (Suc n) (f + 1) k"
  by (simp add: busy_attempts_def map_upt_Suc ac_simps del: upt_Suc)

lemma loop_all_busy:
  assumes busy: "\<And>cur e. raises_busy (fst (a conn cur e))"
  shows "db (self w) sid = Some conn \<Longrightarrow> 0 \<le> f \<Longrightarrow> f < 10 \<Longrightarrow>
   \<exists>w'. safe_execute_loop sid a f w = Some (Raise (Exn ValueError too_many_msg), w') \<and>
         self w' = self w \<and>
         next_cursor w' = next_cursor w + nat (10 - f) \<and>
         trace w' = trace w @ busy_attempts conn (next_cursor w) f (nat (10 - f))"
proof (induction "nat (10 - f)" arbitrary: f w)
  case 0
  then show ?case by simp
next
  case (Suc n)
  obtain r e where act: "a conn (Cursor (next_cursor w)) (env w) = (r, e)"
    by (cases "a conn (Cursor (next_cursor w)) (env w)")
  with busy [of "Cursor (next_cursor w)" "env w"] obtain x
    where r: "r = Raise x" and x: "cls x = SqliteOperationalError"
    by (cases r) (auto simp: raises_busy_def)
  let ?evs = "busy_attempt conn (next_cursor w) (f + 1)"
  let ?w1 = "attempt_done ?evs e w"
  have eq: "safe_execute_loop sid a f w =
     (if f + 1 = 10 then Some (Raise (Exn ValueError too_many_msg), ?w1)
      else safe_execute_loop sid a (f + 1) ?w1)"
    using Suc.prems(1) act r x by (simp add: loop_busy [where x = x and e = e])
  have k: "nat (10 - f) = Suc n" using Suc.hyps(2) by simp
  show ?case
  proof (cases "f + 1 = 10")
    case True
    then have "n = 0" using k by linarith
    with eq True k show ?thesis
      by (simp add: busy_attempts_def)
  next
    case False
    have n: "n = nat (10 - (f + 1))" and "0 \<le> f + 1" "f + 1 < 10"
      using Suc.hyps(2) Suc.prems False by linarith+
    moreover have "db (self ?w1) sid = Some conn" using Suc.prems(1) by simp
    ultimately obtain w' where
      w': "safe_execute_loop sid a (f + 1) ?w1 = Some (Raise (Exn ValueError too_many_msg), w')"
        "self w' = self ?w1" "next_cursor w' = next_cursor ?w1 + nat (10 - (f + 1))"
        "trace w' = trace ?w1 @ busy_attempts conn (next_cursor ?w1) (f + 1) (nat (10 - (f + 1)))"
      using Suc.hyps(1) [of "f + 1" ?w1] by blast
    show ?thesis
      using eq False w' n k by (simp add: busy_attempts_Suc)
  qed
qed

lemma sleeps_busy_attempts:
  "sleeps (busy_attempts conn n f k) = map (\<lambda>j. 3 * (f + 1 + int j)) [0..<k]"
  by (induction k arbitrary: n f)
     (simp_all add: busy_attempts_def sleeps_append busy_attempt_def)

lemma invoked_busy_attempts:
  "invoked (busy_attempts conn n f k) = map (\<lambda>j. (conn, Cursor (n + j))) [0..<k]"
  by (induction k arbitrary: n f)
     (simp_all add: busy_attempts_def invoked_append busy_attempt_def)

lemma upt_10: "[0..<10] = [0, 1, 2, 3, 4, 5, 6, 7, 8, 9::nat]"
  by (simp add: upt_rec)

lemma safe_execute_Some_cases:
  assumes "safe_execute sid a w = Some (r, w')"
  obtains
    (invalid) "db (self w) sid = None" "w' = w"
      "r = Raise (Exn ValueError (invalid_session_msg sid))"
  | (no_lock) "db (self w) sid \<noteq> None" "\<not> master_lock (self w)"
      "session_lock (self w) sid = None"
      "w' = log_event (Acquire MasterLock) (w\<lparr>self := (self w)\<lparr>master_lock := True\<rparr>\<rparr>)"
      "r = Raise (Exn KeyError (repr_bytes sid))"
  | (run) conn where "idle sid conn w"
proof (cases "db (self w) sid")
  case None
  with assms have "w' = w" "r = Raise (Exn ValueError (invalid_session_msg sid))"
    by (simp_all add: safe_execute_def)
  with None show ?thesis by (rule invalid)
next
  case (Some conn)
  show ?thesis
  proof (cases "master_lock (self w)")
    case True
    with assms Some show ?thesis by (simp add: safe_execute_def master_acquire_def)
  next
    case False
    show ?thesis
    proof (cases "session_lock (self w) sid")
      case None
      with assms Some False
      have "w' = log_event (Acquire MasterLock) (w\<lparr>self := (self w)\<lparr>master_lock := True\<rparr>\<rparr>)"
        "r = Raise (Exn KeyError (repr_bytes sid))"
        by (simp_all add: safe_execute_def master_acquire_def session_acquire_def log_event_def)
      with Some False None show ?thesis by (intro no_lock) simp_all
    next
      case held: (Some held)
      show ?thesis
      proof (cases held)
        case True
        with assms Some False held show ?thesis
          by (simp add: safe_execute_def master_acquire_def session_acquire_def log_event_def)
      next
        case nh: False
        with Some False held
        have "idle sid conn w" by (simp add: idle_def)
        then show ?thesis by (rule run)
      qed
    qed
  qed
qed

lemma safe_execute_idle_post:
  assumes "idle sid conn w"
  shows "\<exists>r w2 evs. safe_execute_loop sid a 0 (enter sid w) = Some (r, w2) \<and>
           loop_post sid (enter sid w) w2 evs \<and>
           safe_execute sid a w = Some (r, leave sid w2) \<and>
           self (leave sid w2) = self w"
proof -
  from loop_spec [of 0 sid a "enter sid w"] obtain r w2 evs where
    l: "safe_execute_loop sid a 0 (enter sid w) = Some (r, w2)"
    and p: "loop_post sid (enter sid w) w2 evs"
    by auto
  from p have s: "self w2 = self (enter sid w)" by (simp add: loop_post_def)
  have "safe_execute sid a w = Some (r, leave sid w2)"
    by (rule safe_execute_loop_result [OF assms l s])
  moreover have "self (leave sid w2) = self w"
    by (rule leave_enter_self [OF assms s])
  ultimately show ?thesis
    using l p by blast
qed

lemma call_post_leave:
  assumes "loop_post sid (enter sid w) w2 evs" and "self (leave sid w2) = self w"
  shows "call_post sid w (leave sid w2)
           ([Acquire MasterLock, Acquire (SessionLock sid)] @ evs @
            [Release (SessionLock sid), Release MasterLock])"
  using assms
  by (simp add: call_post_def loop_post_def cursor_scan_append opened_append invoked_append)

lemma safe_execute_post:
  assumes "safe_execute sid a w = Some (r, w')"
  shows "\<exists>evs. call_post sid w w' evs"
  using assms
proof (cases rule: safe_execute_Some_cases)
  case invalid
  then have "call_post sid w w' []" by (simp add: call_post_def)
  then show ?thesis ..
next
  case no_lock
  then have "call_post sid w w' [Acquire MasterLock]"
    by (simp add: call_post_def log_event_def)
  then show ?thesis ..
next
  case (run conn)
  from safe_execute_idle_post [OF run, of a] obtain r2 w2 evs where
    p: "loop_post sid (enter sid w) w2 evs"
    and e: "safe_execute sid a w = Some (r2, leave sid w2)"
    and s: "self (leave sid w2) = self w"
    by blast
  from e assms have "w' = leave sid w2" by simp
  with call_post_leave [OF p s] show ?thesis by blast
qed

lemma load_loop_post:
  "load_loop s w = Some y \<Longrightarrow>
     self (snd y) = self w \<and> trace (snd y) = trace w \<and> env (snd y) = env w \<and>
     next_cursor (snd y) = next_cursor w \<and> db (self w) (fst y) = None \<and> fst y \<noteq> []"
  apply (erule load_loop.raw_induct [rotated,
        where P = "\<lambda>s w y. self (snd y) = self w \<and> trace (snd y) = trace w \<and> env (snd y) = env w \<and>
     next_cursor (snd y) = next_cursor w \<and> db (self w) (fst y) = None \<and> fst y \<noteq> []"])
  subgoal premises prems for loop s w y
    using prems(2)
    by (auto simp: os_urandom_def split: option.splits if_splits dest!: prems(1))
  done

lemma load_post:
  assumes "load connection w = Some (r, w')"
  shows "\<exists>sid. r = Return sid \<and> sid \<noteq> [] \<and> db (self w) sid = None \<and>
           db (self w') = (db (self w))(sid \<mapsto> connection) \<and>
           session_lock (self w') = (session_lock (self w))(sid \<mapsto> False) \<and>
           master_lock (self w') = False \<and>
           env w' = env w \<and> next_cursor w' = next_cursor w \<and>
           trace w' = trace w @ [Acquire MasterLock, Release MasterLock]"
proof -
  from assms obtain w1 where a: "master_acquire w = Some w1"
    by (auto simp: load_def split: option.splits)
  with assms obtain sid w2 where l: "load_loop None w1 = Some (sid, w2)"
    by (auto simp: load_def split: option.splits)
  from load_loop_post [OF l] have p:
    "self w2 = self w1" "trace w2 = trace w1" "env w2 = env w1" "next_cursor w2 = next_cursor w1"
    "db (self w1) sid = None" "sid \<noteq> []"
    by simp_all
  from a have w1: "w1 = log_event (Acquire MasterLock) (w\<lparr>self := (self w)\<lparr>master_lock := True\<rparr>\<rparr>)"
    by (auto simp: master_acquire_def split: if_splits)
  let ?w4 = "store_lock sid (store_connection sid connection w2)"
  from assms a l have "(r, w') =
     (case master_release ?w4 of
        Inl x \<Rightarrow> (Raise x, ?w4)
      | Inr w5 \<Rightarrow> (Return sid, w5))"
    by (simp add: load_def Let_def split: sum.splits)
  with p w1 show ?thesis
    by (simp add: master_release_def store_lock_def store_connection_def log_event_def)
qed


lemma safe_execute_db:
  assumes "safe_execute sid a w = Some (r, w')"
  shows "db (self w') = db (self w)"
  using safe_execute_post [OF assms] by (auto simp: call_post_def)

lemma commit_db:
  assumes "commit db_commit sid w = Some (r, w')"
  shows "db (self w') = db (self w)"
proof -
  from assms obtain r1 where "safe_execute sid (\<lambda>db cursor. db_commit db) w = Some (r1, w')"
    by (auto simp: commit_def split: option.splits outcome.splits)
  then show ?thesis by (rule safe_execute_db)
qed

lemma load_db:
  assumes "load connection w = Some (r, w')" and "db (self w) t = Some c"
  shows "db (self w') t = Some c"
proof -
  from load_post [OF assms(1)] obtain sid where
    "db (self w) sid = None" "db (self w') = (db (self w))(sid \<mapsto> connection)"
    by blast
  with assms(2) show ?thesis by auto
qed

lemma run_calls_db:
  "run_calls db_commit cs w = Some (toks, w') \<Longrightarrow> db (self w) t = Some c \<Longrightarrow>
   db (self w') t = Some c"
proof (induction cs arbitrary: w toks)
  case Nil
  then show ?case by simp
next
  case (Cons x cs)
  show ?case
  proof (cases x)
    case (Load connection)
    with Cons.prems(1) obtain r w1 toks1 where
      l: "load connection w = Some (r, w1)" and
      rest: "run_calls db_commit cs w1 = Some (toks1, w')"
      by (auto split: option.splits)
    from load_db [OF l Cons.prems(2)] Cons.IH [OF rest] show ?thesis by simp
  next
    case (SafeExecute sid a)
    with Cons.prems(1) obtain r w1 where
      l: "safe_execute sid a w = Some (r, w1)" and
      rest: "run_calls db_commit cs w1 = Some (toks, w')"
      by (auto split: option.splits)
    from safe_execute_db [OF l] Cons.prems(2) Cons.IH [OF rest] show ?thesis by simp
  next
    case (Commit sid)
    with Cons.prems(1) obtain r w1 where
      l: "commit db_commit sid w = Some (r, w1)" and
      rest: "run_calls db_commit cs w1 = Some (toks, w')"
      by (auto split: option.splits)
    from commit_db [OF l] Cons.prems(2) Cons.IH [OF rest] show ?thesis by simp
  qed
qed

lemma run_calls_tokens:
  "run_calls db_commit cs w = Some (toks, w') \<Longrightarrow>
   distinct toks \<and> (\<forall>t \<in> set toks. db (self w) t = None \<and> db (self w') t \<noteq> None)"
proof (induction cs arbitrary: w toks)
  case Nil
  then show ?case by simp
next
  case (Cons x cs)
  show ?case
  proof (cases x)
    case (Load connection)
    with Cons.prems(1) obtain r w1 toks1 where
      l: "load connection w = Some (r, w1)" and
      rest: "run_calls db_commit cs w1 = Some (toks1, w')" and
      toks: "toks = returned r @ toks1"
      by (auto split: option.splits)
    from load_post [OF l] obtain sid where
      sid: "r = Return sid" "db (self w) sid = None"
        "db (self w1) = (db (self w))(sid \<mapsto> connection)"
      by blast
    from Cons.IH [OF rest] have ih: "distinct toks1"
      "\<forall>t \<in> set toks1. db (self w1) t = None \<and> db (self w') t \<noteq> None"
      by simp_all
    have "db (self w1) sid = Some connection" using sid(3) by simp
    from run_calls_db [OF rest this] have "db (self w') sid \<noteq> None" by simp
    moreover have "sid \<notin> set toks1" using ih(2) sid(3) by auto
    moreover have "\<forall>t \<in> set toks1. db (self w) t = None"
      using ih(2) sid(3) by (auto split: if_splits)
    ultimately show ?thesis
      using ih sid toks by (simp add: returned_def)
  next
    case (SafeExecute sid a)
    with Cons.prems(1) obtain r w1 where
      l: "safe_execute sid a w = Some (r, w1)" and
      rest: "run_calls db_commit cs w1 = Some (toks, w')"
      by (auto split: option.splits)
    from safe_execute_db [OF l] Cons.IH [OF rest] show ?thesis by simp
  next
    case (Commit sid)
    with Cons.prems(1) obtain r w1 where
      l: "commit db_commit sid w = Some (r, w1)" and
      rest: "run_calls db_commit cs w1 = Some (toks, w')"
      by (auto split: option.splits)
    from commit_db [OF l] Cons.IH [OF rest] show ?thesis by simp
  qed
qed

lemma safe_execute_exhausted:
  assumes "\<forall>cur e. raises_busy (fst (action conn cur e))"
    and "idle session_id conn w"
  shows "\<exists>w' evs. safe_execute session_id action w =
             Some (Raise (Exn ValueError too_many_msg), w') \<and>
           self w' = self w \<and>
           trace w' = trace w @ [Acquire MasterLock, Acquire (SessionLock session_id)] @ evs @
             [Release (SessionLock session_id), Release MasterLock] \<and>
           evs = busy_attempts conn (next_cursor w) 0 10 \<and>
           map snd (invoked evs) = map (\<lambda>j. Cursor (next_cursor w + j)) [0..<10] \<and>
           length (invoked evs) = 10 \<and>
           sleeps evs = [3, 6, 9, 12, 15, 18, 21, 24, 27, 30]"
proof -
  let ?w1 = "enter session_id w"
  have conn: "db (self ?w1) session_id = Some conn"
    using assms(2) by (simp add: idle_def)
  have busy: "\<And>cur e. raises_busy (fst (action conn cur e))"
    using assms(1) by simp
  from loop_all_busy [of action conn ?w1 session_id 0, OF busy conn]
  obtain w2 where w2:
    "safe_execute_loop session_id action 0 ?w1 = Some (Raise (Exn ValueError too_many_msg), w2)"
    "self w2 = self ?w1"
    "trace w2 = trace ?w1 @ busy_attempts conn (next_cursor ?w1) 0 10"
    by auto
  have "safe_execute session_id action w =
          Some (Raise (Exn ValueError too_many_msg), leave session_id w2)"
    by (rule safe_execute_loop_result [OF assms(2) w2(1) w2(2)])
  moreover have "self (leave session_id w2) = self w"
    by (rule leave_enter_self [OF assms(2) w2(2)])
  moreover have "sleeps (busy_attempts conn (next_cursor w) 0 10) =
      [3, 6, 9, 12, 15, 18, 21, 24, 27, 30]"
    by (simp add: sleeps_busy_attempts upt_10)
  ultimately show ?thesis
    using w2(3) by (simp add: invoked_busy_attempts)
qed

lemmas lock_ops = master_acquire_def master_release_def session_acquire_def session_release_def
  store_connection_def store_lock_def conn_cursor_def cursor_close_def py_print_def
  time_sleep_def log_event_def

lemma thread_step_master:
  assumes "thread_step j p w = Some (p', w')"
  shows "(\<not> holds_master p \<and> holds_master p' \<longrightarrow>
            \<not> master_lock (self w) \<and> master_lock (self w')) \<and>
         (holds_master p \<and> holds_master p' \<longrightarrow>
            master_lock (self w') = master_lock (self w)) \<and>
         (\<not> holds_master p \<and> \<not> holds_master p' \<longrightarrow> w' = w)"
proof (cases j)
  case (LoadJob connection)
  with assms show ?thesis
    by (cases p)
       (auto simp: lock_ops split: option.splits sum.splits if_splits prod.splits
          dest: load_loop_post)
next
  case (ExecJob session_id action)
  with assms show ?thesis
    by (cases p)
       (auto simp: lock_ops Let_def split: option.splits sum.splits if_splits prod.splits
          outcome.splits)
qed

lemma mutex_inv_step:
  assumes inv: "mutex_inv (w, pcs)"
    and st: "thread_step (jobs t) (pcs t) w = Some (p, w')"
  shows "mutex_inv (w', pcs(t := p))"
proof -
  note m = thread_step_master [OF st]
  from inv have locked: "\<And>u. holds_master (pcs u) \<Longrightarrow> master_lock (self w)"
    and only: "\<And>u v. holds_master (pcs u) \<Longrightarrow> holds_master (pcs v) \<Longrightarrow> u = v"
    unfolding mutex_inv_def fst_conv snd_conv by blast+
  have others: "u = t" if "holds_master ((pcs(t := p)) u)" "holds_master (pcs t) \<or> holds_master p" for u
  proof (rule ccontr)
    assume "u \<noteq> t"
    with that(1) have hu: "holds_master (pcs u)" by simp
    from that(2) show False
    proof
      assume "holds_master (pcs t)"
      from only [OF hu this] \<open>u \<noteq> t\<close> show False by simp
    next
      assume hp: "holds_master p"
      have "\<not> holds_master (pcs t)"
      proof
        assume "holds_master (pcs t)"
        from only [OF hu this] \<open>u \<noteq> t\<close> show False by simp
      qed
      with hp m have "\<not> master_lock (self w)" by simp
      with locked [OF hu] show False by simp
    qed
  qed
  have l: "master_lock (self w')" if h: "holds_master ((pcs(t := p)) u)" for u
  proof (cases "holds_master (pcs t) \<or> holds_master p")
    case True
    from others [OF h True] h have hp: "holds_master p" by simp
    show ?thesis
    proof (cases "holds_master (pcs t)")
      case True
      with hp m locked [OF True] show ?thesis by simp
    next
      case False
      with hp m show ?thesis by simp
    qed
  next
    case False
    with m have "w' = w" by simp
    moreover from False h have "u \<noteq> t" by auto
    with h have "holds_master (pcs u)" by simp
    ultimately show ?thesis using locked by simp
  qed
  have u: "u = v" if hu: "holds_master ((pcs(t := p)) u)" and hv: "holds_master ((pcs(t := p)) v)" for u v
  proof (cases "holds_master (pcs t) \<or> holds_master p")
    case True
    from others [OF hu True] others [OF hv True] show ?thesis by simp
  next
    case False
    with hu hv have "u \<noteq> t" "v \<noteq> t" by auto
    with hu hv only [of u v] show ?thesis by simp
  qed
  from l u show ?thesis
    unfolding mutex_inv_def fst_conv snd_conv by blast
qed

lemma mutex_inv_start:
  "mutex_inv (w, \<lambda>t. start_pc (jobs t))"
proof -
  have "\<not> holds_master (start_pc (jobs t))" for t
    by (cases "jobs t") simp_all
  then show ?thesis by (simp add: mutex_inv_def)
qed

lemma reachable_mutex_inv:
  "reachable jobs ws cfg \<Longrightarrow> mutex_inv cfg"
  by (induction rule: reachable.induct) (auto intro: mutex_inv_start mutex_inv_step)

lemma in_action_holds: "in_action p \<Longrightarrow> holds_master p"
  by (cases p) simp_all

lemma reachable_mutex:
  assumes "reachable jobs ws (w, pcs)"
  shows "(in_action (pcs t1) \<longrightarrow> master_lock (self w)) \<and>
         (in_action (pcs t1) \<longrightarrow> in_action (pcs t2) \<longrightarrow> t1 = t2)"
  using reachable_mutex_inv [OF assms] in_action_holds
  by (fastforce simp: mutex_inv_def)

lemma run_alone_add:
  "run_alone (m + n) j p w =
     (case run_alone m j p w of None \<Rightarrow> None | Some (p', w') \<Rightarrow> run_alone n j p' w')"
  by (induction m arbitrary: p w) (auto split: option.splits)

lemma run_alone_trans:
  assumes "run_alone m j p w = Some (p1, w1)" and "run_alone n j p1 w1 = Some (p2, w2)"
  shows "run_alone (m + n) j p w = Some (p2, w2)"
  using assms by (simp add: run_alone_add)

lemma attempt_steps:
  assumes "db (self w) sid = Some conn"
    and "a conn (Cursor (next_cursor w)) (env w) = (r, e)"
  shows "run_alone 2 (ExecJob sid a) (L57 f) w =
           Some (L63 f (Cursor (next_cursor w)) r,
                 w\<lparr>next_cursor := Suc (next_cursor w), env := e,
                   trace := trace w @ [CursorOpen conn (Cursor (next_cursor w)),
                                        Invoke conn (Cursor (next_cursor w))]\<rparr>)"
  using assms by (simp add: numeral_2_eq_2 conn_cursor_def log_event_def)

lemma loop_steps:
  "0 \<le> f \<Longrightarrow> f < 10 \<Longrightarrow> safe_execute_loop sid a f w = Some (r, w') \<Longrightarrow>
   \<exists>n. run_alone n (ExecJob sid a) (L57 f) w = Some (L76 r, w')"
proof (induction "nat (10 - f)" arbitrary: f w)
  case 0
  then show ?case by simp
next
  case (Suc k)
  show ?case
  proof (cases "db (self w) sid")
    case None
    with Suc.prems(3) have "r = Raise (Exn KeyError (repr_bytes sid))" "w' = w"
      by (simp_all add: loop_no_session)
    with None have "run_alone 1 (ExecJob sid a) (L57 f) w = Some (L76 r, w')" by simp
    then show ?thesis ..
  next
    case (Some conn)
    obtain r1 e where act: "a conn (Cursor (next_cursor w)) (env w) = (r1, e)"
      by (cases "a conn (Cursor (next_cursor w)) (env w)")
    let ?cur = "Cursor (next_cursor w)"
    let ?w2 = "w\<lparr>next_cursor := Suc (next_cursor w), env := e,
                   trace := trace w @ [CursorOpen conn ?cur, Invoke conn ?cur]\<rparr>"
    have two: "run_alone 2 (ExecJob sid a) (L57 f) w = Some (L63 f ?cur r1, ?w2)"
      using Some act by (rule attempt_steps)
    show ?thesis
    proof (cases r1)
      case (Return v)
      with Suc.prems(3) Some act have "r = Return v"
        "w' = attempt_done (final_attempt conn (next_cursor w)) e w"
        by (simp_all add: loop_return)
      with Return have "run_alone 1 (ExecJob sid a) (L63 f ?cur r1) ?w2 = Some (L76 r, w')"
        by (simp add: cursor_close_def log_event_def attempt_done_def final_attempt_def)
      from run_alone_trans [OF two this] show ?thesis ..
    next
      case (Raise x)
      show ?thesis
      proof (cases "cls x = SqliteOperationalError")
        case False
        with Raise Suc.prems(3) Some act have "r = Raise x"
          "w' = attempt_done (final_attempt conn (next_cursor w)) e w"
          by (simp_all add: loop_other)
        with Raise False
        have "run_alone 1 (ExecJob sid a) (L63 f ?cur r1) ?w2 = Some (L76 r, w')"
          by (simp add: cursor_close_def log_event_def attempt_done_def final_attempt_def)
        from run_alone_trans [OF two this] show ?thesis ..
      next
        case True
        let ?w1 = "attempt_done (busy_attempt conn (next_cursor w) (f + 1)) e w"
        have eq: "safe_execute_loop sid a f w =
           (if f + 1 = 10 then Some (Raise (Exn ValueError too_many_msg), ?w1)
            else safe_execute_loop sid a (f + 1) ?w1)"
          using Some act Raise True by (simp add: loop_busy [where x = x and e = e])
        show ?thesis
        proof (cases "f + 1 = 10")
          case ten: True
          with eq Suc.prems(3) have "r = Raise (Exn ValueError too_many_msg)" "w' = ?w1"
            by simp_all
          with Raise True ten
          have "run_alone 1 (ExecJob sid a) (L63 f ?cur r1) ?w2 = Some (L76 r, w')"
            by (simp add: cursor_close_def py_print_def time_sleep_def log_event_def
                attempt_done_def busy_attempt_def Let_def)
          from run_alone_trans [OF two this] show ?thesis ..
        next
          case False
          with Raise True
          have one: "run_alone 1 (ExecJob sid a) (L63 f ?cur r1) ?w2 = Some (L57 (f + 1), ?w1)"
            by (simp add: cursor_close_def py_print_def time_sleep_def log_event_def
                attempt_done_def busy_attempt_def Let_def)
          have "k = nat (10 - (f + 1))" "0 \<le> f + 1" "f + 1 < 10"
            using Suc.hyps(2) Suc.prems False by linarith+
          moreover from eq False Suc.prems(3)
          have "safe_execute_loop sid a (f + 1) ?w1 = Some (r, w')" by simp
          ultimately obtain n where
            "run_alone n (ExecJob sid a) (L57 (f + 1)) ?w1 = Some (L76 r, w')"
            using Suc.hyps(1) [of "f + 1" ?w1] by blast
          from run_alone_trans [OF run_alone_trans [OF two one] this] show ?thesis ..
        qed
      qed
    qed
  qed
qed

lemma safe_execute_steps:
  assumes "safe_execute sid a w = Some (r, w')"
  shows "\<exists>n. run_alone n (ExecJob sid a) L48 w = Some (Done (ExecResult r), w')"
  using assms
proof (cases rule: safe_execute_Some_cases)
  case invalid
  then have "run_alone 1 (ExecJob sid a) L48 w = Some (Done (ExecResult r), w')"
    by simp
  then show ?thesis ..
next
  case no_lock
  then have "run_alone 3 (ExecJob sid a) L48 w = Some (Done (ExecResult r), w')"
    by (simp add: numeral_3_eq_3 master_acquire_def session_acquire_def log_event_def)
  then show ?thesis ..
next
  case (run conn)
  from safe_execute_idle_post [OF run, of a] obtain r2 w2 evs where
    l: "safe_execute_loop sid a 0 (enter sid w) = Some (r2, w2)"
    and p: "loop_post sid (enter sid w) w2 evs"
    and e: "safe_execute sid a w = Some (r2, leave sid w2)"
    by blast
  from e assms have rw: "r = r2" "w' = leave sid w2" by simp_all
  from run have a: "run_alone 3 (ExecJob sid a) L48 w = Some (L57 0, enter sid w)"
    by (simp add: numeral_3_eq_3 idle_def master_acquire_def session_acquire_def
        log_event_def enter_def)
  from loop_steps [OF _ _ l] obtain n where
    b: "run_alone n (ExecJob sid a) (L57 0) (enter sid w) = Some (L76 r2, w2)"
    by auto
  from p have "self w2 = self (enter sid w)" by (simp add: loop_post_def)
  then have c: "run_alone 2 (ExecJob sid a) (L76 r2) w2 = Some (Done (ExecResult r2), leave sid w2)"
    by (simp add: numeral_2_eq_2 session_release_def master_release_def log_event_def
        enter_def leave_def)
  from run_alone_trans [OF run_alone_trans [OF a b] c] rw show ?thesis by blast
qed

lemma load_steps:
  assumes "load connection w = Some (r, w')"
  shows "run_alone 5 (LoadJob connection) L27 w = Some (Done (LoadResult r), w')"
proof -
  from assms obtain w1 where a: "master_acquire w = Some w1"
    by (auto simp: load_def split: option.splits)
  with assms obtain sid w2 where l: "load_loop None w1 = Some (sid, w2)"
    by (auto simp: load_def split: option.splits)
  have five: "5 = Suc (Suc (Suc (Suc (Suc 0))))" by simp
  from assms a l show ?thesis
    by (simp add: five load_def Let_def split: sum.splits)
qed

lemma reachable_run_alone:
  "reachable jobs ws (w, pcs) \<Longrightarrow> run_alone n (jobs t) (pcs t) w = Some (p, w') \<Longrightarrow>
   reachable jobs ws (w', pcs(t := p))"
proof (induction n arbitrary: w pcs)
  case 0
  then have "pcs(t := p) = pcs" "w' = w" by auto
  with "0.prems"(1) show ?case by simp
next
  case (Suc n)
  from Suc.prems(2) obtain p1 w1 where
    s: "thread_step (jobs t) (pcs t) w = Some (p1, w1)" and
    r: "run_alone n (jobs t) p1 w1 = Some (p, w')"
    by (auto split: option.splits)
  from reachable.step [OF Suc.prems(1) s] have a: "reachable jobs ws (w1, pcs(t := p1))" .
  from r have b: "run_alone n (jobs t) ((pcs(t := p1)) t) w1 = Some (p, w')" by simp
  from Suc.IH [OF a b] have "reachable jobs ws (w', (pcs(t := p1))(t := p))" .
  then show ?case by (simp only: fun_upd_upd)
qed

lemma run_calls_keys:
  "run_calls db_commit cs w = Some (toks, w') \<Longrightarrow>
   dom (db (self w')) = dom (db (self w)) \<union> set toks"
proof (induction cs arbitrary: w toks)
  case Nil
  then show ?case by simp
next
  case (Cons x cs)
  show ?case
  proof (cases x)
    case (Load connection)
    with Cons.prems(1) obtain r w1 toks1 where
      l: "load connection w = Some (r, w1)" and
      rest: "run_calls db_commit cs w1 = Some (toks1, w')" and
      toks: "toks = returned r @ toks1"
      by (auto split: option.splits)
    from load_post [OF l] obtain sid where
      sid: "r = Return sid" "db (self w1) = (db (self w))(sid \<mapsto> connection)"
      by blast
    from Cons.IH [OF rest] sid toks show ?thesis
      by (auto simp: returned_def)
  next
    case (SafeExecute sid a)
    with Cons.prems(1) obtain r w1 where
      l: "safe_execute sid a w = Some (r, w1)" and
      rest: "run_calls db_commit cs w1 = Some (toks, w')"
      by (auto split: option.splits)
    from safe_execute_db [OF l] Cons.IH [OF rest] show ?thesis by simp
  next
    case (Commit sid)
    with Cons.prems(1) obtain r w1 where
      l: "commit db_commit sid w = Some (r, w1)" and
      rest: "run_calls db_commit cs w1 = Some (toks, w')"
      by (auto split: option.splits)
    from commit_db [OF l] Cons.IH [OF rest] show ?thesis by simp
  qed
qed

lemma thread_step_free:
  assumes "thread_step j p w = Some (p', w')" and "\<not> holds_master p"
  shows "session_lock (self w') = session_lock (self w) \<and> db (self w') = db (self w)"
proof (cases j)
  case (LoadJob connection)
  with assms show ?thesis
    by (cases p) (auto simp: lock_ops split: option.splits if_splits)
next
  case (ExecJob session_id action)
  with assms show ?thesis
    by (cases p) (auto simp: lock_ops split: option.splits if_splits)
qed

lemma thread_step_db:
  assumes "thread_step j p w = Some (p', w')"
  shows "(\<forall>k. db (self w) k \<noteq> None \<longrightarrow> db (self w') k \<noteq> None) \<and>
         (\<forall>k. db (self w') k \<noteq> None \<longrightarrow> db (self w) k \<noteq> None \<or> (p = L33 k \<and> p' = L36 k))"
proof (cases j)
  case (LoadJob connection)
  with assms show ?thesis
    by (cases p)
       (auto simp: lock_ops split: option.splits sum.splits if_splits dest: load_loop_post)
next
  case (ExecJob session_id action)
  with assms show ?thesis
    by (cases p)
       (auto simp: lock_ops Let_def split: option.splits sum.splits if_splits prod.splits
          outcome.splits)
qed

lemma thread_step_locks:
  assumes "thread_step j p w = Some (p', w')"
  shows "(\<forall>k. session_lock (self w) k \<noteq> None \<longrightarrow> session_lock (self w') k \<noteq> None) \<and>
         (\<forall>k. p = L36 k \<longrightarrow> session_lock (self w') k \<noteq> None) \<and>
         (\<forall>k. p' = L36 k \<longrightarrow> p = L33 k)"
proof (cases j)
  case (LoadJob connection)
  with assms show ?thesis
    by (cases p)
       (auto simp: lock_ops split: option.splits sum.splits if_splits dest: load_loop_post)
next
  case (ExecJob session_id action)
  with assms show ?thesis
    by (cases p)
       (auto simp: lock_ops Let_def split: option.splits sum.splits if_splits prod.splits
          outcome.splits)
qed

lemma thread_step_exec:
  assumes "thread_step (ExecJob sid a) p w = Some (p', w')"
  shows "(in_body p' \<longrightarrow> session_lock (self w') sid = Some True \<or>
            (in_body p \<and> session_lock (self w') = session_lock (self w))) \<and>
         (checked p' \<longrightarrow> db (self w') sid \<noteq> None \<or> checked p)"
  using assms
  by (cases p)
     (auto simp: lock_ops Let_def split: option.splits sum.splits if_splits prod.splits
        outcome.splits)

lemma release_inv_step:
  assumes m: "mutex_inv (w, pcs)"
    and inv: "release_inv jobs (w, pcs)"
    and st: "thread_step (jobs t) (pcs t) w = Some (p, w')"
  shows "release_inv jobs (w', pcs(t := p))"
proof -
  from m have only: "\<And>u v. holds_master (pcs u) \<Longrightarrow> holds_master (pcs v) \<Longrightarrow> u = v"
    unfolding mutex_inv_def fst_conv snd_conv by blast
  from inv have body: "\<And>u sid a. jobs u = ExecJob sid a \<Longrightarrow> in_body (pcs u) \<Longrightarrow>
        session_lock (self w) sid = Some True"
    and chk: "\<And>u sid a. jobs u = ExecJob sid a \<Longrightarrow> checked (pcs u) \<Longrightarrow>
        db (self w) sid \<noteq> None"
    and keys: "\<And>k. db (self w) k \<noteq> None \<Longrightarrow>
        session_lock (self w) k \<noteq> None \<or> (\<exists>u. pcs u = L36 k)"
    unfolding release_inv_def fst_conv snd_conv by blast+
  note d = thread_step_db [OF st]
  note l = thread_step_locks [OF st]
  have body_holds: "holds_master q" if "in_body q" for q :: "('a, 'c) pc"
    using that by (cases q) simp_all
  have a: "session_lock (self w') sid = Some True"
    if j: "jobs u = ExecJob sid a" and b: "in_body ((pcs(t := p)) u)" for u sid a
  proof (cases "u = t")
    case True
    with j st have e: "thread_step (ExecJob sid a) (pcs t) w = Some (p, w')" by simp
    from b True have "in_body p" by simp
    with thread_step_exec [OF e] body [of t sid a] j True show ?thesis by auto
  next
    case False
    with b have bu: "in_body (pcs u)" by simp
    have "\<not> holds_master (pcs t)"
    proof
      assume "holds_master (pcs t)"
      from only [OF body_holds [OF bu] this] False show False by simp
    qed
    from thread_step_free [OF st this] body [OF j bu] show ?thesis by simp
  qed
  have b: "db (self w') sid \<noteq> None"
    if j: "jobs u = ExecJob sid a" and c: "checked ((pcs(t := p)) u)" for u sid a
  proof (cases "u = t")
    case True
    with j st have e: "thread_step (ExecJob sid a) (pcs t) w = Some (p, w')" by simp
    from c True have "checked p" by simp
    with thread_step_exec [OF e] have "db (self w') sid \<noteq> None \<or> checked (pcs t)" by simp
    with chk [of t sid a] j True d show ?thesis by blast
  next
    case False
    with c have "checked (pcs u)" by simp
    from chk [OF j this] d show ?thesis by blast
  qed
  have c: "session_lock (self w') k \<noteq> None \<or> (\<exists>u. (pcs(t := p)) u = L36 k)"
    if k: "db (self w') k \<noteq> None" for k
  proof (cases "db (self w) k \<noteq> None")
    case True
    from keys [OF True] show ?thesis
    proof
      assume "session_lock (self w) k \<noteq> None"
      with l show ?thesis by blast
    next
      assume "\<exists>u. pcs u = L36 k"
      then obtain u where u: "pcs u = L36 k" ..
      show ?thesis
      proof (cases "u = t")
        case True
        with u l show ?thesis by blast
      next
        case False
        with u have "(pcs(t := p)) u = L36 k" by simp
        then show ?thesis by blast
      qed
    qed
  next
    case False
    with d k have "p = L36 k" by blast
    then have "(pcs(t := p)) t = L36 k" by simp
    then show ?thesis by blast
  qed
  from a b c show ?thesis
    unfolding release_inv_def fst_conv snd_conv by blast
qed

lemma release_inv_start:
  assumes "keys_have_locks ws"
  shows "release_inv jobs (ws, \<lambda>t. start_pc (jobs t))"
proof -
  have "\<not> in_body (start_pc (jobs t)) \<and> \<not> checked (start_pc (jobs t))" for t
    by (cases "jobs t") simp_all
  with assms show ?thesis
    by (auto simp: release_inv_def keys_have_locks_def)
qed

lemma reachable_release_inv:
  assumes "keys_have_locks ws"
  shows "reachable jobs ws cfg \<Longrightarrow> release_inv jobs cfg"
proof (induction rule: reachable.induct)
  case start
  from assms show ?case by (rule release_inv_start)
next
  case (step w pcs t p w')
  from reachable_mutex_inv [OF step.hyps(1)] step.IH step.hyps(2)
  show ?case by (rule release_inv_step)
qed

lemma reachable_releases:
  assumes k: "keys_have_locks ws"
    and r: "reachable jobs ws (w, pcs)"
    and j: "jobs t = ExecJob sid a"
  shows "(pcs t = L51 \<longrightarrow> session_acquire sid w \<noteq> Some (Inl x)) \<and>
         (pcs t = L76 res \<longrightarrow>
            (\<exists>w1. thread_step (jobs t) (pcs t) w = Some (L77 res, w1) \<and>
               session_lock (self w1) sid = Some False)) \<and>
         (pcs t = L77 res \<longrightarrow>
            (\<exists>w1. thread_step (jobs t) (pcs t) w = Some (Done (ExecResult res), w1) \<and>
               \<not> master_lock (self w1)))"
proof (intro conjI impI)
  note inv = reachable_release_inv [OF k r]
  note m = reachable_mutex_inv [OF r]
  assume p: "pcs t = L51"
  with inv j have d: "db (self w) sid \<noteq> None"
    unfolding release_inv_def fst_conv snd_conv by fastforce
  have "\<not> (\<exists>u. pcs u = L36 sid)"
  proof
    assume "\<exists>u. pcs u = L36 sid"
    then obtain u where u: "pcs u = L36 sid" ..
    with p m have "u = t"
      unfolding mutex_inv_def fst_conv snd_conv by (metis holds_master.simps(3,5))
    with u p show False by simp
  qed
  with inv d have "session_lock (self w) sid \<noteq> None"
    unfolding release_inv_def fst_conv snd_conv by blast
  then show "session_acquire sid w \<noteq> Some (Inl x)"
    by (auto simp: session_acquire_def split: if_splits)
next
  note inv = reachable_release_inv [OF k r]
  assume p: "pcs t = L76 res"
  with inv j have "session_lock (self w) sid = Some True"
    unfolding release_inv_def fst_conv snd_conv by fastforce
  with p j show "\<exists>w1. thread_step (jobs t) (pcs t) w = Some (L77 res, w1) \<and>
               session_lock (self w1) sid = Some False"
    by (simp add: session_release_def log_event_def)
next
  note m = reachable_mutex_inv [OF r]
  assume p: "pcs t = L77 res"
  with m have "master_lock (self w)"
    unfolding mutex_inv_def fst_conv snd_conv by (metis holds_master.simps(10))
  with p j show "\<exists>w1. thread_step (jobs t) (pcs t) w = Some (Done (ExecResult res), w1) \<and>
               \<not> master_lock (self w1)"
    by (simp add: master_release_def log_event_def)
qed

text \<open>
  Calls made one after the other on a registry created by \<^verbatim>\<open>__init__\<close> leave it at
  rest, so every registered session is \<open>idle\<close> when the next call starts.
\<close>

lemma quiescent_init: "self w = init \<Longrightarrow> quiescent w"
  by (simp add: quiescent_def init_def)

lemma quiescent_idle:
  assumes "quiescent w" and "db (self w) sid = Some conn"
  shows "idle sid conn w"
proof -
  from assms have "sid \<in> dom (session_lock (self w))"
    by (auto simp: quiescent_def)
  then obtain held where "session_lock (self w) sid = Some held" by auto
  with assms show ?thesis
    by (cases held) (auto simp: quiescent_def idle_def)
qed

lemma safe_execute_quiescent:
  assumes q: "quiescent w" and s: "safe_execute sid a w = Some (r, w')"
  shows "quiescent w'"
  using s
proof (cases rule: safe_execute_Some_cases)
  case invalid
  with q show ?thesis by simp
next
  case no_lock
  with q show ?thesis by (auto simp: quiescent_def)
next
  case (run conn)
  from safe_execute_idle_post [OF run, of a] s have "self w' = self w" by auto
  with q show ?thesis by (simp add: quiescent_def)
qed

lemma commit_quiescent:
  assumes q: "quiescent w" and s: "commit db_commit sid w = Some (r, w')"
  shows "quiescent w'"
proof -
  from s obtain r1 where "safe_execute sid (\<lambda>db cursor. db_commit db) w = Some (r1, w')"
    by (auto simp: commit_def split: option.splits outcome.splits)
  with q show ?thesis by (rule safe_execute_quiescent)
qed

lemma load_quiescent:
  assumes q: "quiescent w" and s: "load connection w = Some (r, w')"
  shows "quiescent w'"
proof -
  from load_post [OF s] obtain sid where
    "db (self w') = (db (self w))(sid \<mapsto> connection)"
    "session_lock (self w') = (session_lock (self w))(sid \<mapsto> False)"
    "master_lock (self w') = False"
    by blast
  with q show ?thesis by (auto simp: quiescent_def)
qed

lemma run_calls_quiescent:
  "quiescent w \<Longrightarrow> run_calls db_commit cs w = Some (toks, w') \<Longrightarrow> quiescent w'"
proof (induction cs arbitrary: w toks)
  case Nil
  then show ?case by simp
next
  case (Cons x cs)
  show ?case
  proof (cases x)
    case (Load connection)
    with Cons.prems(2) obtain r w1 toks1 where
      l: "load connection w = Some (r, w1)" and
      rest: "run_calls db_commit cs w1 = Some (toks1, w')"
      by (auto split: option.splits)
    from Cons.IH [OF load_quiescent [OF Cons.prems(1) l] rest] show ?thesis .
  next
    case (SafeExecute sid a)
    with Cons.prems(2) obtain r w1 where
      l: "safe_execute sid a w = Some (r, w1)" and
      rest: "run_calls db_commit cs w1 = Some (toks, w')"
      by (auto split: option.splits)
    from Cons.IH [OF safe_execute_quiescent [OF Cons.prems(1) l] rest] show ?thesis .
  next
    case (Commit sid)
    with Cons.prems(2) obtain r w1 where
      l: "commit db_commit sid w = Some (r, w1)" and
      rest: "run_calls db_commit cs w1 = Some (toks, w')"
      by (auto split: option.splits)
    from Cons.IH [OF commit_quiescent [OF Cons.prems(1) l] rest] show ?thesis .
  qed
qed

lemma registered_sessions_idle:
  assumes "self w0 = init" and "run_calls db_commit cs w0 = Some (toks, w)"
    and "db (self w) sid = Some conn"
  shows "idle sid conn w"
  using quiescent_idle [OF run_calls_quiescent [OF quiescent_init [OF assms(1)] assms(2)] assms(3)] .

lemma quiescent_keys_have_locks: "quiescent w \<Longrightarrow> keys_have_locks w"
  by (simp add: quiescent_def keys_have_locks_def)

lemma loop_busy_then:
  "db (self w) sid = Some conn \<Longrightarrow> 0 \<le> f \<Longrightarrow> f + int k < 10 \<Longrightarrow>
   run_action a conn (next_cursor w) (env w) k = (rs, ek) \<Longrightarrow>
   \<forall>r \<in> set rs. raises_busy r \<Longrightarrow>
   a conn (Cursor (next_cursor w + k)) ek = (r, e') \<Longrightarrow> \<not> raises_busy r \<Longrightarrow>
   \<exists>w'. safe_execute_loop sid a f w = Some (r, w') \<and>
         self w' = self w \<and> env w' = e' \<and>
         next_cursor w' = next_cursor w + Suc k \<and>
         trace w' = trace w @ busy_attempts conn (next_cursor w) f k @
                      final_attempt conn (next_cursor w + k)"
proof (induction k arbitrary: f w rs)
  case 0
  then have act: "a conn (Cursor (next_cursor w)) (env w) = (r, e')" by simp
  let ?w1 = "attempt_done (final_attempt conn (next_cursor w)) e' w"
  have "safe_execute_loop sid a f w = Some (r, ?w1)"
  proof (cases r)
    case (Return v)
    with act "0.prems"(1) show ?thesis by (simp add: loop_return)
  next
    case (Raise x)
    with act "0.prems"(1,7) show ?thesis by (simp add: loop_other raises_busy_def)
  qed
  then show ?case by (simp add: busy_attempts_def)
next
  case (Suc k)
  obtain r1 e1 where act: "a conn (Cursor (next_cursor w)) (env w) = (r1, e1)"
    by (cases "a conn (Cursor (next_cursor w)) (env w)")
  obtain rs1 where rest: "run_action a conn (Suc (next_cursor w)) e1 k = (rs1, ek)"
    and rs: "rs = r1 # rs1"
    using Suc.prems(4) act by (auto split: prod.splits)
  from rs Suc.prems(5) have b1: "raises_busy r1" and brs: "\<forall>r \<in> set rs1. raises_busy r"
    by simp_all
  from b1 obtain x where r1: "r1 = Raise x" and x: "cls x = SqliteOperationalError"
    by (cases r1) (auto simp: raises_busy_def)
  let ?w1 = "attempt_done (busy_attempt conn (next_cursor w) (f + 1)) e1 w"
  from Suc.prems(3) have ne: "f + 1 \<noteq> 10" by simp
  have eq: "safe_execute_loop sid a f w = safe_execute_loop sid a (f + 1) ?w1"
    using Suc.prems(1) act r1 x ne by (simp add: loop_busy [where x = x and e = e1])
  have c: "db (self ?w1) sid = Some conn" using Suc.prems(1) by simp
  have f1: "0 \<le> f + 1" "f + 1 + int k < 10" using Suc.prems(2,3) by simp_all
  have ra: "run_action a conn (next_cursor ?w1) (env ?w1) k = (rs1, ek)"
    using rest by simp
  have la: "a conn (Cursor (next_cursor ?w1 + k)) ek = (r, e')"
    using Suc.prems(6) by simp
  from Suc.IH [OF c f1 ra brs la Suc.prems(7)] obtain w' where
    "safe_execute_loop sid a (f + 1) ?w1 = Some (r, w')"
    "self w' = self ?w1" "env w' = e'" "next_cursor w' = next_cursor ?w1 + Suc k"
    "trace w' = trace ?w1 @ busy_attempts conn (next_cursor ?w1) (f + 1) k @
                      final_attempt conn (next_cursor ?w1 + k)"
    by blast
  with eq show ?case by (simp add: busy_attempts_Suc)
qed

lemma loop_retries_only_busy:
  "db (self w) sid = Some conn \<Longrightarrow> 0 \<le> f \<Longrightarrow> f < 10 \<Longrightarrow>
   \<exists>r w' evs m. safe_execute_loop sid a f w = Some (r, w') \<and>
      self w' = self w \<and> trace w' = trace w @ evs \<and>
      length (invoked evs) = Suc m \<and>
      (\<forall>r \<in> set (fst (run_action a conn (next_cursor w) (env w) m)). raises_busy r) \<and>
      env w' = snd (run_action a conn (next_cursor w) (env w) (Suc m))"
proof (induction "nat (10 - f)" arbitrary: f w)
  case 0
  then show ?case by simp
next
  case (Suc n)
  obtain r1 e1 where act: "a conn (Cursor (next_cursor w)) (env w) = (r1, e1)"
    by (cases "a conn (Cursor (next_cursor w)) (env w)")
  have zero: "\<exists>r w' evs m. safe_execute_loop sid a f w = Some (r, w') \<and>
      self w' = self w \<and> trace w' = trace w @ evs \<and>
      length (invoked evs) = Suc m \<and>
      (\<forall>r \<in> set (fst (run_action a conn (next_cursor w) (env w) m)). raises_busy r) \<and>
      env w' = snd (run_action a conn (next_cursor w) (env w) (Suc m))"
    if l: "safe_execute_loop sid a f w = Some (r, attempt_done evs e1 w)"
      and i: "length (invoked evs) = Suc 0" for r evs
  proof -
    have "trace (attempt_done evs e1 w) = trace w @ evs" by simp
    moreover have "env (attempt_done evs e1 w) =
        snd (run_action a conn (next_cursor w) (env w) (Suc 0))"
      using act by simp
    moreover have "\<forall>r \<in> set (fst (run_action a conn (next_cursor w) (env w) 0)). raises_busy r"
      by simp
    moreover have "self (attempt_done evs e1 w) = self w" by simp
    ultimately show ?thesis using l i by blast
  qed
  show ?case
  proof (cases r1)
    case (Return v)
    with act Suc.prems(1)
    have "safe_execute_loop sid a f w =
        Some (Return v, attempt_done (final_attempt conn (next_cursor w)) e1 w)"
      by (simp add: loop_return)
    then show ?thesis by (rule zero) (simp add: final_attempt_def)
  next
    case (Raise x)
    show ?thesis
    proof (cases "cls x = SqliteOperationalError")
      case False
      with Raise act Suc.prems(1)
      have "safe_execute_loop sid a f w =
          Some (Raise x, attempt_done (final_attempt conn (next_cursor w)) e1 w)"
        by (simp add: loop_other)
      then show ?thesis by (rule zero) (simp add: final_attempt_def)
    next
      case True
      let ?evs = "busy_attempt conn (next_cursor w) (f + 1)"
      let ?w1 = "attempt_done ?evs e1 w"
      have eq: "safe_execute_loop sid a f w =
         (if f + 1 = 10 then Some (Raise (Exn ValueError too_many_msg), ?w1)
          else safe_execute_loop sid a (f + 1) ?w1)"
        using Suc.prems(1) act Raise True by (simp add: loop_busy [where x = x and e = e1])
      show ?thesis
      proof (cases "f + 1 = 10")
        case ten: True
        with eq have "safe_execute_loop sid a f w =
            Some (Raise (Exn ValueError too_many_msg), ?w1)" by simp
        then show ?thesis by (rule zero) (simp add: busy_attempt_def)
      next
        case False
        have "n = nat (10 - (f + 1))" "0 \<le> f + 1" "f + 1 < 10"
          using Suc.hyps(2) Suc.prems False by linarith+
        moreover have "db (self ?w1) sid = Some conn" using Suc.prems(1) by simp
        ultimately obtain r w' evs m where ih:
          "safe_execute_loop sid a (f + 1) ?w1 = Some (r, w')"
          "self w' = self ?w1" "trace w' = trace ?w1 @ evs"
          "length (invoked evs) = Suc m"
          "\<forall>r \<in> set (fst (run_action a conn (next_cursor ?w1) (env ?w1) m)). raises_busy r"
          "env w' = snd (run_action a conn (next_cursor ?w1) (env ?w1) (Suc m))"
          using Suc.hyps(1) [of "f + 1" ?w1] by blast
        have b1: "raises_busy r1" using Raise True by (simp add: raises_busy_def)
        have a1: "safe_execute_loop sid a f w = Some (r, w')" using eq False ih(1) by simp
        have a2: "self w' = self w" using ih(2) by simp
        have a3: "trace w' = trace w @ (?evs @ evs)" using ih(3) by simp
        have a4: "length (invoked (?evs @ evs)) = Suc (Suc m)"
          using ih(4) by (simp add: invoked_append busy_attempt_def)
        have a5: "\<forall>r \<in> set (fst (run_action a conn (next_cursor w) (env w) (Suc m))). raises_busy r"
          using ih(5) act b1 by (simp add: split_beta)
        have a6: "env w' = snd (run_action a conn (next_cursor w) (env w) (Suc (Suc m)))"
          using ih(6) act by (simp add: split_beta)
        from a1 a2 a3 a4 a5 a6 show ?thesis by blast
      qed
    qed
  qed
qed

section \<open>The claims\<close>

text \<open>
  In the statements, \<open>idle session_id conn w\<close> says that the session is registered with
  connection \<open>conn\<close> and that nobody holds the registry lock or the session's lock when the
  call starts: the call does not have to wait. It holds of every registered session after
  any sequence of calls on a new registry (\<open>registered_sessions_idle\<close>).
\<close>



text \<open>
  C2. An action whose first two calls raise \<^verbatim>\<open>sqlite3.OperationalError\<close> and whose
  third call returns \<open>v\<close>: \<^verbatim>\<open>safe_execute\<close> returns \<open>v\<close>, the action has been
  called three times, and there were two sleeps, of 3 and of 6 seconds. The three calls are
  named by the cursors they get and by the state of the outside world each one leaves
  to the next.
\<close>

theorem safe_execute_busy_twice:
  assumes "idle session_id conn w"
    and "action conn (Cursor (next_cursor w)) (env w) = (Raise x1, e1)"
    and "cls x1 = SqliteOperationalError"
    and "action conn (Cursor (next_cursor w + 1)) e1 = (Raise x2, e2)"
    and "cls x2 = SqliteOperationalError"
    and "action conn (Cursor (next_cursor w + 2)) e2 = (Return v, e3)"
  shows "\<exists>w' evs. safe_execute session_id action w = Some (Return v, w') \<and>
           self w' = self w \<and> env w' = e3 \<and>
           trace w' = trace w @ [Acquire MasterLock, Acquire (SessionLock session_id)] @ evs @
             [Release (SessionLock session_id), Release MasterLock] \<and>
           evs = busy_attempt conn (next_cursor w) 1 @ busy_attempt conn (next_cursor w + 1) 2 @
                 final_attempt conn (next_cursor w + 2) \<and>
           map snd (invoked evs) =
             [Cursor (next_cursor w), Cursor (next_cursor w + 1), Cursor (next_cursor w + 2)] \<and>
           sleeps evs = [3, 6]"
proof -
  let ?n = "next_cursor w"
  let ?w0 = "enter session_id w"
  let ?w1 = "attempt_done (busy_attempt conn ?n 1) e1 ?w0"
  let ?w2 = "attempt_done (busy_attempt conn (?n + 1) 2) e2 ?w1"
  let ?w3 = "attempt_done (final_attempt conn (?n + 2)) e3 ?w2"
  have c0: "db (self ?w0) session_id = Some conn"
    using assms(1) by (simp add: idle_def)
  then have c1: "db (self ?w1) session_id = Some conn"
    and c2: "db (self ?w2) session_id = Some conn"
    by simp_all
  have s1: "safe_execute_loop session_id action 0 ?w0 = safe_execute_loop session_id action 1 ?w1"
    using loop_busy [OF c0, of action x1 e1 0] assms(2,3) by simp
  have s2: "safe_execute_loop session_id action 1 ?w1 = safe_execute_loop session_id action 2 ?w2"
    using loop_busy [OF c1, of action x2 e2 1] assms(4,5) by simp
  have s3: "safe_execute_loop session_id action 2 ?w2 = Some (Return v, ?w3)"
    using loop_return [OF c2, of action v e3 2] assms(6) by simp
  have loop: "safe_execute_loop session_id action 0 ?w0 = Some (Return v, ?w3)"
    using s1 s2 s3 by simp
  have "safe_execute session_id action w = Some (Return v, leave session_id ?w3)"
    by (rule safe_execute_loop_result [OF assms(1) loop]) simp
  moreover have "self (leave session_id ?w3) = self w"
    by (rule leave_enter_self [OF assms(1)]) simp
  ultimately show ?thesis
    by (simp add: busy_attempt_def final_attempt_def)
qed

theorem safe_execute_busy_twice_witness:
  "\<exists>w'. safe_execute demo_sid (busy_until 2) demo_world = Some (Return 42, w') \<and>
         env w' = 3 \<and> sleeps (trace w') = [3, 6] \<and> length (invoked (trace w')) = 3"
proof -
  have h: "idle demo_sid ''conn'' demo_world"
    by (simp add: idle_def demo_world_def)
  have t: "trace demo_world = []" "next_cursor demo_world = 0" "env demo_world = 0"
    by (simp_all add: demo_world_def)
  from safe_execute_busy_twice [OF h, of "busy_until 2" locked_exn 1 locked_exn 2 42 3]
  show ?thesis
    by (auto simp: t busy_until_def locked_exn_def sleeps_append invoked_append
        busy_attempt_def final_attempt_def)
qed

text \<open>
  C3. An action that raises an exception of any class other than
  \<^verbatim>\<open>sqlite3.OperationalError\<close>, on its first call or on a later one: that same
  exception comes out of \<^verbatim>\<open>safe_execute\<close> and the action is not called again.
  On the first call: one call, nothing printed, no sleep, the cursor closed and both
  locks released before the call ends. After \<open>k\<close> calls that raised
  \<^verbatim>\<open>sqlite3.OperationalError\<close> (\<open>k\<close> below ten): \<open>k + 1\<close> calls, the \<open>k\<close> sleeps
  of the busy failures and no other, every cursor closed. And in any call of
  \<^verbatim>\<open>safe_execute\<close>, every call of the action but the last one raised
  \<^verbatim>\<open>sqlite3.OperationalError\<close>: nothing else is ever retried.
\<close>

theorem safe_execute_other_error:
  "(idle session_id conn w \<and>
    action conn (Cursor (next_cursor w)) (env w) = (Raise x, e) \<and>
    cls x \<noteq> SqliteOperationalError \<longrightarrow>
      (\<exists>w' evs. safe_execute session_id action w = Some (Raise x, w') \<and>
         self w' = self w \<and> env w' = e \<and>
         trace w' = trace w @ evs \<and>
         evs = [Acquire MasterLock, Acquire (SessionLock session_id),
            CursorOpen conn (Cursor (next_cursor w)),
            Invoke conn (Cursor (next_cursor w)),
            CursorClose (Cursor (next_cursor w)),
            Release (SessionLock session_id), Release MasterLock] \<and>
         length (invoked evs) = 1 \<and> sleeps evs = [])) \<and>
   (idle session_id conn w \<and> k < 10 \<and>
    run_action action conn (next_cursor w) (env w) k = (rs, ek) \<and>
    (\<forall>r \<in> set rs. raises_busy r) \<and>
    action conn (Cursor (next_cursor w + k)) ek = (Raise y, e') \<and>
    cls y \<noteq> SqliteOperationalError \<longrightarrow>
      (\<exists>w' evs. safe_execute session_id action w = Some (Raise y, w') \<and>
         self w' = self w \<and> env w' = e' \<and>
         trace w' = trace w @ [Acquire MasterLock, Acquire (SessionLock session_id)] @ evs @
           [Release (SessionLock session_id), Release MasterLock] \<and>
         evs = busy_attempts conn (next_cursor w) 0 k @ final_attempt conn (next_cursor w + k) \<and>
         cursor_scan Idle evs = Some Idle \<and>
         length (invoked evs) = Suc k \<and>
         sleeps evs = map (\<lambda>j. 3 * (int j + 1)) [0..<k])) \<and>
   (idle session_id conn w \<longrightarrow>
      (\<exists>r w' evs m. safe_execute session_id action w = Some (r, w') \<and>
         trace w' = trace w @ evs \<and>
         length (invoked evs) = Suc m \<and>
         (\<forall>r \<in> set (fst (run_action action conn (next_cursor w) (env w) m)).
            raises_busy r)))"
proof (intro conjI impI)
  assume a: "idle session_id conn w \<and>
    action conn (Cursor (next_cursor w)) (env w) = (Raise x, e) \<and>
    cls x \<noteq> SqliteOperationalError"
  then have "\<not> raises_busy (Raise x)"
    by (simp add: raises_busy_def)
  with a safe_execute_single_attempt [of session_id conn w action "Raise x" e]
  show "\<exists>w' evs. safe_execute session_id action w = Some (Raise x, w') \<and>
         self w' = self w \<and> env w' = e \<and>
         trace w' = trace w @ evs \<and>
         evs = [Acquire MasterLock, Acquire (SessionLock session_id),
            CursorOpen conn (Cursor (next_cursor w)),
            Invoke conn (Cursor (next_cursor w)),
            CursorClose (Cursor (next_cursor w)),
            Release (SessionLock session_id), Release MasterLock] \<and>
         length (invoked evs) = 1 \<and> sleeps evs = []"
    by auto
next
  assume a: "idle session_id conn w \<and> k < 10 \<and>
    run_action action conn (next_cursor w) (env w) k = (rs, ek) \<and>
    (\<forall>r \<in> set rs. raises_busy r) \<and>
    action conn (Cursor (next_cursor w + k)) ek = (Raise y, e') \<and>
    cls y \<noteq> SqliteOperationalError"
  then have i: "idle session_id conn w" by simp
  let ?w0 = "enter session_id w"
  let ?evs = "busy_attempts conn (next_cursor w) 0 k @ final_attempt conn (next_cursor w + k)"
  have c: "db (self ?w0) session_id = Some conn"
    using i by (simp add: idle_def)
  have nb: "\<not> raises_busy (Raise y)" using a by (simp add: raises_busy_def)
  have k: "0 + int k < 10" using a by simp
  have ra: "run_action action conn (next_cursor ?w0) (env ?w0) k = (rs, ek)"
    using a by simp
  have la: "action conn (Cursor (next_cursor ?w0 + k)) ek = (Raise y, e')"
    using a by simp
  have bs: "\<forall>r \<in> set rs. raises_busy r" using a by simp
  from loop_busy_then [OF c _ k ra bs la nb] obtain w2 where w2:
    "safe_execute_loop session_id action 0 ?w0 = Some (Raise y, w2)"
    "self w2 = self ?w0" "env w2 = e'"
    "trace w2 = trace ?w0 @ ?evs"
    by auto
  from loop_spec [of 0 session_id action ?w0] w2(1) obtain evs' where
    "loop_post session_id ?w0 w2 evs'" by auto
  with w2(4) have scan: "cursor_scan Idle ?evs = Some Idle"
    by (simp add: loop_post_def)
  have e: "safe_execute session_id action w = Some (Raise y, leave session_id w2)"
    by (rule safe_execute_loop_result [OF i w2(1) w2(2)])
  have s: "self (leave session_id w2) = self w"
    by (rule leave_enter_self [OF i w2(2)])
  have n: "length (invoked ?evs) = Suc k"
    by (simp add: invoked_append invoked_busy_attempts final_attempt_def)
  have sl: "sleeps ?evs = map (\<lambda>j. 3 * (int j + 1)) [0..<k]"
    by (simp add: sleeps_append sleeps_busy_attempts final_attempt_def ac_simps)
  from e s w2(3,4) scan n sl
  show "\<exists>w' evs. safe_execute session_id action w = Some (Raise y, w') \<and>
         self w' = self w \<and> env w' = e' \<and>
         trace w' = trace w @ [Acquire MasterLock, Acquire (SessionLock session_id)] @ evs @
           [Release (SessionLock session_id), Release MasterLock] \<and>
         evs = busy_attempts conn (next_cursor w) 0 k @ final_attempt conn (next_cursor w + k) \<and>
         cursor_scan Idle evs = Some Idle \<and>
         length (invoked evs) = Suc k \<and>
         sleeps evs = map (\<lambda>j. 3 * (int j + 1)) [0..<k]"
    by simp
next
  assume i: "idle session_id conn w"
  let ?w0 = "enter session_id w"
  have c: "db (self ?w0) session_id = Some conn"
    using i by (simp add: idle_def)
  from loop_retries_only_busy [OF c, of 0 action] obtain r w2 evs m where l:
    "safe_execute_loop session_id action 0 ?w0 = Some (r, w2)"
    "self w2 = self ?w0" "trace w2 = trace ?w0 @ evs"
    "length (invoked evs) = Suc m"
    "\<forall>r \<in> set (fst (run_action action conn (next_cursor ?w0) (env ?w0) m)). raises_busy r"
    by auto
  have e: "safe_execute session_id action w = Some (r, leave session_id w2)"
    by (rule safe_execute_loop_result [OF i l(1) l(2)])
  let ?all = "[Acquire MasterLock, Acquire (SessionLock session_id)] @ evs @
           [Release (SessionLock session_id), Release MasterLock]"
  have t: "trace (leave session_id w2) = trace w @ ?all" using l(3) by simp
  have n: "length (invoked ?all) = Suc m" using l(4) by (simp add: invoked_append)
  from l(5) have b: "\<forall>r \<in> set (fst (run_action action conn (next_cursor w) (env w) m)).
            raises_busy r" by simp
  from e t n b
  show "\<exists>r w' evs m. safe_execute session_id action w = Some (r, w') \<and>
         trace w' = trace w @ evs \<and>
         length (invoked evs) = Suc m \<and>
         (\<forall>r \<in> set (fst (run_action action conn (next_cursor w) (env w) m)).
            raises_busy r)"
    by blast
qed

theorem safe_execute_other_error_witness:
  "(\<exists>w'. safe_execute demo_sid always_integrity demo_world = Some (Raise integrity_exn, w') \<and>
      env w' = 1 \<and> sleeps (trace w') = [] \<and> length (invoked (trace w')) = 1) \<and>
   (\<exists>w'. safe_execute demo_sid (busy_then_integrity 2) demo_world =
        Some (Raise integrity_exn, w') \<and>
      env w' = 3 \<and> sleeps (trace w') = [3, 6] \<and> length (invoked (trace w')) = 3) \<and>
   (\<exists>r w' m. safe_execute demo_sid (busy_until 2) demo_world = Some (r, w') \<and>
      length (invoked (trace w')) = Suc m \<and>
      (\<forall>r \<in> set (fst (run_action (busy_until 2) ''conn'' 0 0 m)). raises_busy r))"
proof (intro conjI)
  have h: "idle demo_sid ''conn'' demo_world"
    by (simp add: idle_def demo_world_def)
  have t: "trace demo_world = []" "next_cursor demo_world = 0" "env demo_world = 0"
    by (simp_all add: demo_world_def)
  have a: "always_integrity ''conn'' (Cursor (next_cursor demo_world)) (env demo_world) =
      (Raise integrity_exn, 1)"
    by (simp add: t always_integrity_def)
  have c: "cls integrity_exn \<noteq> SqliteOperationalError"
    by (simp add: integrity_exn_def)
  from safe_execute_other_error [where session_id = demo_sid and conn = "''conn''"
      and w = demo_world and action = always_integrity and x = integrity_exn and e = 1
      and k = 0 and rs = "[]" and ek = 0 and y = integrity_exn and e' = 1,
      THEN conjunct1, rule_format, OF conjI [OF h conjI [OF a c]]]
  show "\<exists>w'. safe_execute demo_sid always_integrity demo_world = Some (Raise integrity_exn, w') \<and>
      env w' = 1 \<and> sleeps (trace w') = [] \<and> length (invoked (trace w')) = 1"
    by (auto simp: t)
next
  have h: "idle demo_sid ''conn'' demo_world"
    by (simp add: idle_def demo_world_def)
  have t: "trace demo_world = []" "next_cursor demo_world = 0" "env demo_world = 0"
    by (simp_all add: demo_world_def)
  have k: "(2::nat) < 10" by simp
  have ra: "run_action (busy_then_integrity 2) ''conn'' (next_cursor demo_world)
      (env demo_world) 2 = ([Raise locked_exn, Raise locked_exn], 2)"
    by (simp add: t numeral_2_eq_2 busy_then_integrity_def)
  have bs: "\<forall>r \<in> set [Raise locked_exn, Raise locked_exn :: nat outcome]. raises_busy r"
    by (simp add: raises_busy_def locked_exn_def)
  have la: "busy_then_integrity 2 ''conn'' (Cursor (next_cursor demo_world + 2)) 2 =
      (Raise integrity_exn, 3)"
    by (simp add: busy_then_integrity_def)
  have c: "cls integrity_exn \<noteq> SqliteOperationalError"
    by (simp add: integrity_exn_def)
  from safe_execute_other_error [where session_id = demo_sid and conn = "''conn''"
      and w = demo_world and action = "busy_then_integrity 2" and x = integrity_exn and e = 1
      and k = 2 and rs = "[Raise locked_exn, Raise locked_exn]" and ek = 2
      and y = integrity_exn and e' = 3,
      THEN conjunct2, THEN conjunct1, rule_format,
      OF conjI [OF h conjI [OF k conjI [OF ra conjI [OF bs conjI [OF la c]]]]]]
  obtain w' evs where r:
    "safe_execute demo_sid (busy_then_integrity 2) demo_world = Some (Raise integrity_exn, w')"
    "env w' = 3"
    "trace w' = trace demo_world @ [Acquire MasterLock, Acquire (SessionLock demo_sid)] @ evs @
           [Release (SessionLock demo_sid), Release MasterLock]"
    "length (invoked evs) = Suc 2"
    "sleeps evs = map (\<lambda>j. 3 * (int j + 1)) [0..<2]"
    by blast
  have "map (\<lambda>j. 3 * (int j + 1)) [0..<2] = [3, 6]"
    by (simp add: upt_rec)
  with r t
  show "\<exists>w'. safe_execute demo_sid (busy_then_integrity 2) demo_world =
        Some (Raise integrity_exn, w') \<and>
      env w' = 3 \<and> sleeps (trace w') = [3, 6] \<and> length (invoked (trace w')) = 3"
    by (simp add: sleeps_append invoked_append)
next
  have h: "idle demo_sid ''conn'' demo_world"
    by (simp add: idle_def demo_world_def)
  have t: "trace demo_world = []" "next_cursor demo_world = 0" "env demo_world = 0"
    by (simp_all add: demo_world_def)
  from safe_execute_other_error [where session_id = demo_sid and conn = "''conn''"
      and w = demo_world and action = "busy_until 2" and x = integrity_exn and e = 1
      and k = 0 and rs = "[]" and ek = 0 and y = integrity_exn and e' = 1,
      THEN conjunct2, THEN conjunct2, rule_format, OF h] t
  show "\<exists>r w' m. safe_execute demo_sid (busy_until 2) demo_world = Some (r, w') \<and>
      length (invoked (trace w')) = Suc m \<and>
      (\<forall>r \<in> set (fst (run_action (busy_until 2) ''conn'' 0 0 m)). raises_busy r)"
    by auto
qed

text \<open>
  C4. With a session id that is not a key of \<^verbatim>\<open>db\<close>, \<^verbatim>\<open>safe_execute\<close> raises
  \<^verbatim>\<open>ValueError\<close> with the invalid-session message and leaves the whole world as it
  was: no lock is taken, no cursor is made, the action is not called, nothing is printed,
  no sleep, and the registry is unchanged. This holds whatever the state of the locks.
  The keys of \<^verbatim>\<open>db\<close> are the ids that \<^verbatim>\<open>load\<close> has returned: after any
  sequence of calls on a registry that started empty, an id that no \<^verbatim>\<open>load\<close> of the
  sequence returned is such a session id.
\<close>

theorem safe_execute_invalid_session:
  "(db (self w) session_id = None \<longrightarrow>
      safe_execute session_id action w =
        Some (Raise (Exn ValueError (invalid_session_msg session_id)), w)) \<and>
   (db (self w0) = Map.empty \<and> run_calls db_commit calls w0 = Some (toks, w) \<and>
    session_id \<notin> set toks \<longrightarrow>
      safe_execute session_id action w =
        Some (Raise (Exn ValueError (invalid_session_msg session_id)), w))"
proof (intro conjI impI)
  assume "db (self w) session_id = None"
  then show "safe_execute session_id action w =
        Some (Raise (Exn ValueError (invalid_session_msg session_id)), w)"
    by (simp add: safe_execute_def)
next
  assume a: "db (self w0) = Map.empty \<and> run_calls db_commit calls w0 = Some (toks, w) \<and>
    session_id \<notin> set toks"
  then have "dom (db (self w)) = set toks"
    using run_calls_keys [of db_commit calls w0 toks w] by simp
  with a have "db (self w) session_id = None" by auto
  then show "safe_execute session_id action w =
        Some (Raise (Exn ValueError (invalid_session_msg session_id)), w)"
    by (simp add: safe_execute_def)
qed

theorem safe_execute_invalid_session_witness:
  "db (self demo_world) unknown_sid = None \<and>
   safe_execute unknown_sid always_busy demo_world =
     Some (Raise (Exn ValueError (invalid_session_msg unknown_sid)), demo_world) \<and>
   (\<exists>toks w. run_calls demo_commit
        [Load ''a'', Load ''b'' :: (string, nat, nat) call] fresh_world = Some (toks, w) \<and>
      unknown_sid \<notin> set toks \<and>
      safe_execute unknown_sid always_busy w =
        Some (Raise (Exn ValueError (invalid_session_msg unknown_sid)), w))"
proof -
  have h: "db (self demo_world) unknown_sid = None"
    by (simp add: demo_world_def demo_sid_def unknown_sid_def)
  note a = safe_execute_invalid_session [where w = demo_world and session_id = unknown_sid
      and action = always_busy and ?w0.0 = fresh_world and db_commit = demo_commit
      and calls = "[] :: (string, nat, nat) call list" and toks = "[]", THEN conjunct1, rule_format, OF h]
  have "map_option fst (run_calls demo_commit
        [Load ''a'', Load ''b'' :: (string, nat, nat) call] fresh_world) =
     Some [[0, 1, 2, 3, 4, 5, 6, 7, 8, 9, 10, 11, 12, 13, 14, 15],
           [32, 33, 34, 35, 36, 37, 38, 39, 40, 41, 42, 43, 44, 45, 46, 47]]"
    by code_simp
  then obtain w where r: "run_calls demo_commit
        [Load ''a'', Load ''b'' :: (string, nat, nat) call] fresh_world =
     Some ([[0, 1, 2, 3, 4, 5, 6, 7, 8, 9, 10, 11, 12, 13, 14, 15],
           [32, 33, 34, 35, 36, 37, 38, 39, 40, 41, 42, 43, 44, 45, 46, 47]], w)"
    by auto
  have e: "db (self fresh_world) = Map.empty"
    by (simp add: fresh_world_def init_def)
  have n: "unknown_sid \<notin> set [[0, 1, 2, 3, 4, 5, 6, 7, 8, 9, 10, 11, 12, 13, 14, 15],
           [32, 33, 34, 35, 36, 37, 38, 39, 40, 41, 42, 43, 44, 45, 46, 47 :: 8 word]]"
    by (simp add: unknown_sid_def)
  note b = safe_execute_invalid_session [where w = w and session_id = unknown_sid
      and action = always_busy and ?w0.0 = fresh_world and db_commit = demo_commit
      and calls = "[Load ''a'', Load ''b'' :: (string, nat, nat) call]"
      and toks = "[[0, 1, 2, 3, 4, 5, 6, 7, 8, 9, 10, 11, 12, 13, 14, 15],
           [32, 33, 34, 35, 36, 37, 38, 39, 40, 41, 42, 43, 44, 45, 46, 47]]",
      THEN conjunct2, rule_format, OF conjI [OF e conjI [OF r n]]]
  from h a r n b show ?thesis by blast
qed

text \<open>
  C7. When the connection's commit operation returns (whatever it returns),
  \<^verbatim>\<open>commit\<close> has called it exactly once, on the stored connection, and returns
  \<open>True\<close>: the outside world is the one that one call of the operation leaves, and the
  trace holds one call. And whenever the wrapped \<^verbatim>\<open>safe_execute\<close> returns without
  raising, also after retries, \<^verbatim>\<open>commit\<close> returns \<open>True\<close>, whatever value came back.
\<close>

theorem commit_once_and_true:
  "(idle session_id conn w \<and> db_commit conn (env w) = (Return res, e) \<longrightarrow>
      (\<exists>w'. commit db_commit session_id w = Some (Return True, w') \<and>
         self w' = self w \<and> env w' = e \<and>
         trace w' = trace w @
             [Acquire MasterLock, Acquire (SessionLock session_id),
              CursorOpen conn (Cursor (next_cursor w)),
              Invoke conn (Cursor (next_cursor w)),
              CursorClose (Cursor (next_cursor w)),
              Release (SessionLock session_id), Release MasterLock])) \<and>
   (\<forall>res' w1. safe_execute session_id (\<lambda>db cursor. db_commit db) w = Some (Return res', w1) \<longrightarrow>
      commit db_commit session_id w = Some (Return True, w1))"
proof (intro conjI impI allI)
  assume a: "idle session_id conn w \<and> db_commit conn (env w) = (Return res, e)"
  have "\<not> raises_busy (Return res)" by (simp add: raises_busy_def)
  with a safe_execute_single_attempt [of session_id conn w "\<lambda>db cursor. db_commit db" "Return res" e]
  show "\<exists>w'. commit db_commit session_id w = Some (Return True, w') \<and>
         self w' = self w \<and> env w' = e \<and>
         trace w' = trace w @
             [Acquire MasterLock, Acquire (SessionLock session_id),
              CursorOpen conn (Cursor (next_cursor w)),
              Invoke conn (Cursor (next_cursor w)),
              CursorClose (Cursor (next_cursor w)),
              Release (SessionLock session_id), Release MasterLock]"
    by (auto simp: commit_def)
next
  fix res' w1
  assume "safe_execute session_id (\<lambda>db cursor. db_commit db) w = Some (Return res', w1)"
  then show "commit db_commit session_id w = Some (Return True, w1)"
    by (simp add: commit_def)
qed

theorem commit_once_and_true_witness:
  "\<exists>w'. commit demo_commit demo_sid demo_world = Some (Return True, w') \<and> env w' = 1 \<and>
      length (invoked (trace w')) = 1"
proof -
  have h: "idle demo_sid ''conn'' demo_world"
    by (simp add: idle_def demo_world_def)
  have t: "trace demo_world = []" "next_cursor demo_world = 0" "env demo_world = 0"
    by (simp_all add: demo_world_def)
  from commit_once_and_true [of demo_sid "''conn''" demo_world demo_commit "()" 1]
  show ?thesis
    by (auto simp: t h demo_commit_def)
qed

text \<open>
  The first part of C7 is about a commit operation that does not raise. When it raises
  \<^verbatim>\<open>sqlite3.OperationalError\<close>, \<^verbatim>\<open>safe_execute\<close> retries it like any other
  action: a commit operation that is busy once and then succeeds is called twice by one
  \<^verbatim>\<open>commit\<close>, which returns \<open>True\<close>.
\<close>

lemma commit_retries_busy:
  assumes "idle session_id conn w"
    and "db_commit conn (env w) = (Raise x, e1)" and "cls x = SqliteOperationalError"
    and "db_commit conn e1 = (Return res, e2)"
  shows "\<exists>w'. commit db_commit session_id w = Some (Return True, w') \<and> env w' = e2 \<and>
           invoked (trace w') = invoked (trace w) @
             [(conn, Cursor (next_cursor w)), (conn, Cursor (next_cursor w + 1))]"
proof -
  let ?a = "\<lambda>db cursor. db_commit db"
  let ?n = "next_cursor w"
  let ?w0 = "enter session_id w"
  let ?w1 = "attempt_done (busy_attempt conn ?n 1) e1 ?w0"
  let ?w2 = "attempt_done (final_attempt conn (?n + 1)) e2 ?w1"
  have c0: "db (self ?w0) session_id = Some conn"
    using assms(1) by (simp add: idle_def)
  then have c1: "db (self ?w1) session_id = Some conn" by simp
  have s1: "safe_execute_loop session_id ?a 0 ?w0 = safe_execute_loop session_id ?a 1 ?w1"
    using loop_busy [OF c0, of ?a x e1 0] assms(2,3) by simp
  have s2: "safe_execute_loop session_id ?a 1 ?w1 = Some (Return res, ?w2)"
    using loop_return [OF c1, of ?a res e2 1] assms(4) by simp
  have "safe_execute session_id ?a w = Some (Return res, leave session_id ?w2)"
    by (rule safe_execute_loop_result [OF assms(1)]) (simp_all add: s1 s2)
  then show ?thesis
    by (simp add: commit_def invoked_append busy_attempt_def final_attempt_def)
qed

text \<open>
  C5. Take any sequence of calls on one registry (\<^verbatim>\<open>load\<close> calls, with
  \<^verbatim>\<open>safe_execute\<close> and \<^verbatim>\<open>commit\<close> calls in between if the caller makes
  any), started in any state of the registry. If the calls all come back, the session ids
  returned by the \<^verbatim>\<open>load\<close> calls are pairwise distinct, and none of them was a key
  of \<^verbatim>\<open>db\<close> before the sequence, so none equals an id issued earlier.
\<close>

theorem load_tokens_distinct:
  assumes "run_calls db_commit calls w = Some (toks, w')"
  shows "distinct toks \<and> (\<forall>t \<in> set toks. db (self w) t = None)"
  using run_calls_tokens [OF assms] by simp

theorem load_tokens_distinct_witness:
  "\<exists>toks w'. run_calls demo_commit
       [Load ''a'', SafeExecute unknown_sid always_busy, Load ''b'', Load ''c''] fresh_world =
         Some (toks, w') \<and>
     length toks = 3 \<and> distinct toks"
proof -
  have "map_option fst (run_calls demo_commit
       [Load ''a'', SafeExecute unknown_sid always_busy, Load ''b'', Load ''c''] fresh_world) =
     Some [[0, 1, 2, 3, 4, 5, 6, 7, 8, 9, 10, 11, 12, 13, 14, 15],
           [32, 33, 34, 35, 36, 37, 38, 39, 40, 41, 42, 43, 44, 45, 46, 47],
           [48, 49, 50, 51, 52, 53, 54, 55, 56, 57, 58, 59, 60, 61, 62, 63]]"
    by code_simp
  then obtain w' where r: "run_calls demo_commit
       [Load ''a'', SafeExecute unknown_sid always_busy, Load ''b'', Load ''c''] fresh_world =
     Some ([[0, 1, 2, 3, 4, 5, 6, 7, 8, 9, 10, 11, 12, 13, 14, 15],
           [32, 33, 34, 35, 36, 37, 38, 39, 40, 41, 42, 43, 44, 45, 46, 47],
           [48, 49, 50, 51, 52, 53, 54, 55, 56, 57, 58, 59, 60, 61, 62, 63]], w')"
    by auto
  from load_tokens_distinct [OF r] r show ?thesis
    by simp
qed

text \<open>
  C6. Whenever \<^verbatim>\<open>safe_execute\<close> comes back, by returning or by raising, the events
  it added to the trace pass \<open>cursor_scan\<close> from \<open>Idle\<close> to \<open>Idle\<close>: a cursor is
  created only when none is live, the action is called only with the cursor that has just
  been created and has not been used, the only cursor closed is the live one, and no
  cursor is live at the end. The cursors created are new objects, one per call of the
  action, all on the connection stored for the session. With the locks free and the
  session registered, the call does come back.
\<close>

theorem safe_execute_cursors_released:
  "(safe_execute session_id action w = Some (r, w') \<longrightarrow>
      (\<exists>evs. trace w' = trace w @ evs \<and>
         cursor_scan Idle evs = Some Idle \<and>
         map snd (opened evs) = map Cursor [next_cursor w ..< next_cursor w'] \<and>
         (\<forall>c \<in> fst ` set (opened evs). db (self w) session_id = Some c) \<and>
         invoked evs = opened evs)) \<and>
   (idle session_id conn w \<longrightarrow> (\<exists>r1 w1. safe_execute session_id action w = Some (r1, w1)))"
proof (intro conjI impI)
  assume "safe_execute session_id action w = Some (r, w')"
  from safe_execute_post [OF this]
  show "\<exists>evs. trace w' = trace w @ evs \<and>
         cursor_scan Idle evs = Some Idle \<and>
         map snd (opened evs) = map Cursor [next_cursor w ..< next_cursor w'] \<and>
         (\<forall>c \<in> fst ` set (opened evs). db (self w) session_id = Some c) \<and>
         invoked evs = opened evs"
    by (auto simp: call_post_def)
next
  assume "idle session_id conn w"
  from safe_execute_idle_post [OF this, of action]
  show "\<exists>r1 w1. safe_execute session_id action w = Some (r1, w1)"
    by blast
qed

theorem safe_execute_cursors_released_witness:
  "\<exists>r w'. safe_execute demo_sid (busy_until 2) demo_world = Some (r, w') \<and>
     cursor_scan Idle (trace w') = Some Idle \<and>
     map snd (opened (trace w')) = map Cursor [0 ..< next_cursor w']"
proof -
  have h: "idle demo_sid ''conn'' demo_world"
    by (simp add: idle_def demo_world_def)
  have t: "trace demo_world = []" "next_cursor demo_world = 0"
    by (simp_all add: demo_world_def)
  from safe_execute_cursors_released [of demo_sid "busy_until 2" demo_world _ _ "''conn''"] h
  obtain r w' where s: "safe_execute demo_sid (busy_until 2) demo_world = Some (r, w')"
    by blast
  with safe_execute_cursors_released [of demo_sid "busy_until 2" demo_world r w' "''conn''"] t
  show ?thesis by auto
qed

text \<open>
  C8. No method takes an entry out of \<^verbatim>\<open>db\<close> or changes the connection it holds:
  after \<^verbatim>\<open>load\<close> every old entry is still there and the returned id resolves to the
  connection that was loaded; \<^verbatim>\<open>safe_execute\<close> and \<^verbatim>\<open>commit\<close> leave
  \<^verbatim>\<open>db\<close> as it was, whether they return or raise; so an entry survives any
  sequence of calls.
\<close>

theorem registry_entries_persist:
  "(load connection w = Some (r1, w1) \<longrightarrow>
      (\<forall>t c. db (self w) t = Some c \<longrightarrow> db (self w1) t = Some c) \<and>
      (\<forall>tok. r1 = Return tok \<longrightarrow> db (self w1) tok = Some connection)) \<and>
   (safe_execute session_id action w = Some (r2, w2) \<longrightarrow> db (self w2) = db (self w)) \<and>
   (commit db_commit session_id w = Some (r3, w3) \<longrightarrow> db (self w3) = db (self w)) \<and>
   (run_calls db_commit calls w = Some (toks, w4) \<longrightarrow>
      (\<forall>t c. db (self w) t = Some c \<longrightarrow> db (self w4) t = Some c))"
proof (intro conjI impI allI)
  fix t c
  assume "load connection w = Some (r1, w1)" "db (self w) t = Some c"
  then show "db (self w1) t = Some c" by (rule load_db)
next
  fix tok
  assume "load connection w = Some (r1, w1)" "r1 = Return tok"
  with load_post [of connection w r1 w1] show "db (self w1) tok = Some connection"
    by auto
next
  assume "safe_execute session_id action w = Some (r2, w2)"
  then show "db (self w2) = db (self w)" by (rule safe_execute_db)
next
  assume "commit db_commit session_id w = Some (r3, w3)"
  then show "db (self w3) = db (self w)" by (rule commit_db)
next
  fix t c
  assume "run_calls db_commit calls w = Some (toks, w4)" "db (self w) t = Some c"
  then show "db (self w4) t = Some c" by (rule run_calls_db)
qed

theorem registry_entries_persist_witness:
  "\<exists>toks w'. run_calls demo_commit
       [Load ''b'', SafeExecute demo_sid always_integrity, Commit demo_sid,
        SafeExecute unknown_sid always_busy, SafeExecute demo_sid always_busy] demo_world =
         Some (toks, w') \<and>
     db (self w') demo_sid = Some ''conn''"
proof -
  have "map_option fst (run_calls demo_commit
       [Load ''b'', SafeExecute demo_sid always_integrity, Commit demo_sid,
        SafeExecute unknown_sid always_busy, SafeExecute demo_sid always_busy] demo_world) =
     Some [[0, 1, 2, 3, 4, 5, 6, 7, 8, 9, 10, 11, 12, 13, 14, 15]]"
    by code_simp
  then obtain toks w' where r: "run_calls demo_commit
       [Load ''b'', SafeExecute demo_sid always_integrity, Commit demo_sid,
        SafeExecute unknown_sid always_busy, SafeExecute demo_sid always_busy] demo_world =
     Some (toks, w')"
    by auto
  have d: "db (self demo_world) demo_sid = Some ''conn''"
    by (simp add: demo_world_def)
  from registry_entries_persist [where w = demo_world and db_commit = demo_commit
      and calls = "[Load ''b'', SafeExecute demo_sid always_integrity, Commit demo_sid,
        SafeExecute unknown_sid always_busy, SafeExecute demo_sid always_busy]"
      and toks = toks and ?w4.0 = w'] r d
  show ?thesis by blast
qed

text \<open>
  C10. The failure for an unknown session id and the failure after ten busy errors are
  both raised as \<^verbatim>\<open>ValueError\<close>: the exceptions have the same class and differ only
  in their message.
\<close>

theorem invalid_and_exhausted_same_class:
  assumes "db (self w1) sid1 = None"
    and "\<forall>cur e. raises_busy (fst (action2 conn cur e))"
    and "idle sid2 conn w2"
  shows "\<exists>x1 x2 w2'.
           safe_execute sid1 action1 w1 = Some (Raise x1, w1) \<and>
           safe_execute sid2 action2 w2 = Some (Raise x2, w2') \<and>
           cls x1 = ValueError \<and> cls x2 = ValueError \<and> cls x1 = cls x2 \<and>
           msg x1 = invalid_session_msg sid1 \<and> msg x2 = too_many_msg \<and>
           msg x1 \<noteq> msg x2"
proof -
  have a: "safe_execute sid1 action1 w1 =
      Some (Raise (Exn ValueError (invalid_session_msg sid1)), w1)"
    using assms(1) by (simp add: safe_execute_def)
  from assms(2,3) have "\<exists>w' evs. safe_execute sid2 action2 w2 =
             Some (Raise (Exn ValueError too_many_msg), w') \<and>
           self w' = self w2 \<and>
           trace w' = trace w2 @ [Acquire MasterLock, Acquire (SessionLock sid2)] @ evs @
             [Release (SessionLock sid2), Release MasterLock] \<and>
           evs = busy_attempts conn (next_cursor w2) 0 10 \<and>
           map snd (invoked evs) = map (\<lambda>j. Cursor (next_cursor w2 + j)) [0..<10] \<and>
           length (invoked evs) = 10 \<and>
           sleeps evs = [3, 6, 9, 12, 15, 18, 21, 24, 27, 30]"
    by (rule safe_execute_exhausted)
  then obtain w2' where b: "safe_execute sid2 action2 w2 =
             Some (Raise (Exn ValueError too_many_msg), w2')"
    by blast
  have "invalid_session_msg sid1 \<noteq> too_many_msg"
    by (simp add: invalid_session_msg_def too_many_msg_def)
  with a b show ?thesis by simp
qed

theorem invalid_and_exhausted_same_class_witness:
  "\<exists>x1 x2 w'.
     safe_execute unknown_sid always_busy demo_world = Some (Raise x1, demo_world) \<and>
     safe_execute demo_sid always_busy demo_world = Some (Raise x2, w') \<and>
     cls x1 = cls x2 \<and> msg x1 \<noteq> msg x2"
proof -
  have h1: "db (self demo_world) unknown_sid = None"
    by (simp add: demo_world_def demo_sid_def unknown_sid_def)
  have h2: "\<forall>cur e. raises_busy (fst (always_busy ''conn'' cur e))"
    by (simp add: always_busy_def raises_busy_def locked_exn_def)
  have h3: "idle demo_sid ''conn'' demo_world"
    by (simp add: idle_def demo_world_def)
  from invalid_and_exhausted_same_class
    [of demo_world unknown_sid always_busy "''conn''" demo_sid demo_world always_busy] h1 h2 h3
  show ?thesis by blast
qed

text \<open>
  C9. A call of \<^verbatim>\<open>safe_execute\<close> for a registered session (for an unregistered one
  the call ends at line 49, before any lock, see C4) takes the registry lock, then the
  session's lock; whatever the action does, the call comes back with the session's lock
  released first and the registry lock second, both free again, and no other lock event
  in between: the whole loop, with every call of the action, lies between the two
  acquisitions and the two releases.

  With threads: in every configuration that interleaved steps of any number of threads
  can reach, a thread that is inside its action finds the registry lock held, at most
  one thread is inside an action, and at most one thread is anywhere between acquiring
  and releasing the registry lock, in \<^verbatim>\<open>safe_execute\<close> or in \<^verbatim>\<open>load\<close>,
  whatever the sessions. And when every session of the starting registry has its lock,
  the releases of the outer \<^verbatim>\<open>finally\<close> never fail: a thread that comes out of the
  \<^verbatim>\<open>try\<close> with any outcome releases the session's lock, then the registry lock,
  and ends with that outcome; line 51 never raises \<^verbatim>\<open>KeyError\<close>.
\<close>

theorem lock_order_and_mutual_exclusion:
  "(idle session_id conn w \<longrightarrow>
      (\<exists>r w' evs. safe_execute session_id action w = Some (r, w') \<and>
         trace w' = trace w @ [Acquire MasterLock, Acquire (SessionLock session_id)] @ evs @
           [Release (SessionLock session_id), Release MasterLock] \<and>
         lock_events evs = [] \<and>
         \<not> master_lock (self w') \<and> session_lock (self w') session_id = Some False)) \<and>
   (reachable jobs ws (w0, pcs) \<longrightarrow>
      (in_action (pcs t1) \<longrightarrow> master_lock (self w0)) \<and>
      (in_action (pcs t1) \<longrightarrow> in_action (pcs t2) \<longrightarrow> t1 = t2) \<and>
      (holds_master (pcs t1) \<longrightarrow> holds_master (pcs t2) \<longrightarrow> t1 = t2)) \<and>
   (keys_have_locks ws \<and> reachable jobs ws (w0, pcs) \<and> jobs t1 = ExecJob sid a \<longrightarrow>
      (pcs t1 = L51 \<longrightarrow> session_acquire sid w0 \<noteq> Some (Inl x)) \<and>
      (pcs t1 = L76 res \<longrightarrow>
         (\<exists>w1. thread_step (jobs t1) (pcs t1) w0 = Some (L77 res, w1) \<and>
            session_lock (self w1) sid = Some False)) \<and>
      (pcs t1 = L77 res \<longrightarrow>
         (\<exists>w1. thread_step (jobs t1) (pcs t1) w0 = Some (Done (ExecResult res), w1) \<and>
            \<not> master_lock (self w1))))"
proof (intro conjI impI)
  assume i: "idle session_id conn w"
  from safe_execute_idle_post [OF i, of action] obtain r w2 evs where
    p: "loop_post session_id (enter session_id w) w2 evs"
    and e: "safe_execute session_id action w = Some (r, leave session_id w2)"
    and s: "self (leave session_id w2) = self w"
    by blast
  from p have "trace (leave session_id w2) =
      trace w @ [Acquire MasterLock, Acquire (SessionLock session_id)] @ evs @
           [Release (SessionLock session_id), Release MasterLock]"
    and "lock_events evs = []"
    by (simp_all add: loop_post_def)
  moreover from i s have "\<not> master_lock (self (leave session_id w2))"
    "session_lock (self (leave session_id w2)) session_id = Some False"
    by (simp_all add: idle_def)
  ultimately show "\<exists>r w' evs. safe_execute session_id action w = Some (r, w') \<and>
         trace w' = trace w @ [Acquire MasterLock, Acquire (SessionLock session_id)] @ evs @
           [Release (SessionLock session_id), Release MasterLock] \<and>
         lock_events evs = [] \<and>
         \<not> master_lock (self w') \<and> session_lock (self w') session_id = Some False"
    using e by blast
next
  assume "reachable jobs ws (w0, pcs)" "in_action (pcs t1)"
  with reachable_mutex [of jobs ws w0 pcs t1 t1] show "master_lock (self w0)" by simp
next
  assume "reachable jobs ws (w0, pcs)" "in_action (pcs t1)" "in_action (pcs t2)"
  with reachable_mutex [of jobs ws w0 pcs t1 t2] show "t1 = t2" by simp
next
  assume "reachable jobs ws (w0, pcs)" "holds_master (pcs t1)" "holds_master (pcs t2)"
  with reachable_mutex_inv [of jobs ws "(w0, pcs)"] show "t1 = t2"
    unfolding mutex_inv_def fst_conv snd_conv by blast
next
  assume a: "keys_have_locks ws \<and> reachable jobs ws (w0, pcs) \<and> jobs t1 = ExecJob sid a"
    and p: "pcs t1 = L51"
  with reachable_releases [of ws jobs w0 pcs t1 sid a x res]
  show "session_acquire sid w0 \<noteq> Some (Inl x)" by blast
next
  assume a: "keys_have_locks ws \<and> reachable jobs ws (w0, pcs) \<and> jobs t1 = ExecJob sid a"
    and p: "pcs t1 = L76 res"
  with reachable_releases [of ws jobs w0 pcs t1 sid a x res]
  show "\<exists>w1. thread_step (jobs t1) (pcs t1) w0 = Some (L77 res, w1) \<and>
            session_lock (self w1) sid = Some False" by blast
next
  assume a: "keys_have_locks ws \<and> reachable jobs ws (w0, pcs) \<and> jobs t1 = ExecJob sid a"
    and p: "pcs t1 = L77 res"
  with reachable_releases [of ws jobs w0 pcs t1 sid a x res]
  show "\<exists>w1. thread_step (jobs t1) (pcs t1) w0 = Some (Done (ExecResult res), w1) \<and>
            \<not> master_lock (self w1)" by blast
qed

theorem lock_order_and_mutual_exclusion_witness:
  "(\<exists>r w'. safe_execute demo_sid (busy_until 2) demo_world = Some (r, w') \<and>
      lock_events (trace w') =
        [Acquire MasterLock, Acquire (SessionLock demo_sid),
         Release (SessionLock demo_sid), Release MasterLock]) \<and>
   (\<exists>w pcs. reachable demo_jobs demo_world (w, pcs) \<and> in_action (pcs 0) \<and> pcs 1 = L50 \<and>
      thread_step (demo_jobs 1) (pcs 1) w = None \<and>
      master_lock (self w) \<and> (\<forall>t. in_action (pcs t) \<longrightarrow> t = 0)) \<and>
   (\<exists>w pcs w1. reachable demo_jobs demo_world (w, pcs) \<and>
      pcs 0 = L76 (Raise (Exn ValueError too_many_msg)) \<and>
      thread_step (demo_jobs 0) (pcs 0) w =
        Some (L77 (Raise (Exn ValueError too_many_msg)), w1) \<and>
      session_lock (self w1) demo_sid = Some False)"
proof (intro conjI)
  have h: "idle demo_sid ''conn'' demo_world"
    by (simp add: idle_def demo_world_def)
  have t: "trace demo_world = []" by (simp add: demo_world_def)
  from lock_order_and_mutual_exclusion
    [where session_id = demo_sid and conn = "''conn''" and w = demo_world
      and action = "busy_until 2" and jobs = demo_jobs, THEN conjunct1] h
  obtain r w' evs where
    "safe_execute demo_sid (busy_until 2) demo_world = Some (r, w')"
    "trace w' = trace demo_world @ [Acquire MasterLock, Acquire (SessionLock demo_sid)] @ evs @
           [Release (SessionLock demo_sid), Release MasterLock]"
    "lock_events evs = []"
    by blast
  with t
  show "\<exists>r w'. safe_execute demo_sid (busy_until 2) demo_world = Some (r, w') \<and>
      lock_events (trace w') =
        [Acquire MasterLock, Acquire (SessionLock demo_sid),
         Release (SessionLock demo_sid), Release MasterLock]"
    by (simp add: lock_events_append)
next
  let ?pcs0 = "\<lambda>t. start_pc (demo_jobs t)"
  have r0: "reachable demo_jobs demo_world (demo_world, ?pcs0)"
    by (rule reachable.start)
  have s1: "run_alone 1 (demo_jobs 1) (?pcs0 1) demo_world = Some (L50, demo_world)"
    by (simp add: demo_jobs_def demo_world_def)
  from reachable_run_alone [OF r0 s1]
  have r1: "reachable demo_jobs demo_world (demo_world, ?pcs0(1 := L50))" .
  have "map_option fst (run_alone 4 (demo_jobs 0) ((?pcs0(1 := L50)) 0) demo_world) =
      Some (L59 0 ''conn'' (Cursor 0))"
    by code_simp
  then obtain w where
    s2: "run_alone 4 (demo_jobs 0) ((?pcs0(1 := L50)) 0) demo_world =
      Some (L59 0 ''conn'' (Cursor 0), w)"
    by auto
  let ?pcs = "(?pcs0(1 := L50))(0 := L59 0 ''conn'' (Cursor 0))"
  from reachable_run_alone [OF r1 s2]
  have r2: "reachable demo_jobs demo_world (w, ?pcs)" .
  have a: "in_action (?pcs 0)" by simp
  note m = lock_order_and_mutual_exclusion [where jobs = demo_jobs and ws = demo_world
      and ?w0.0 = w
      and pcs = ?pcs and ?t1.0 = 0 and session_id = demo_sid and conn = "''conn''"
      and w = demo_world and action = always_busy, THEN conjunct2, THEN conjunct1,
      rule_format, OF r2]
  from m [of 0] a have locked: "master_lock (self w)" by blast
  have only: "0 = t" if "in_action (?pcs t)" for t
    using m [of t] a that by blast
  from locked have blocked: "thread_step (demo_jobs 1) (?pcs 1) w = None"
    by (simp add: demo_jobs_def master_acquire_def)
  have waiting: "?pcs 1 = L50" by simp
  from only have only': "\<forall>t. in_action (?pcs t) \<longrightarrow> t = 0" by blast
  have "reachable demo_jobs demo_world (w, ?pcs) \<and> in_action (?pcs 0) \<and> ?pcs 1 = L50 \<and>
      thread_step (demo_jobs 1) (?pcs 1) w = None \<and>
      master_lock (self w) \<and> (\<forall>t. in_action (?pcs t) \<longrightarrow> t = 0)"
    using r2 a waiting blocked locked only' by (intro conjI)
  then show "\<exists>w pcs. reachable demo_jobs demo_world (w, pcs) \<and> in_action (pcs 0) \<and> pcs 1 = L50 \<and>
      thread_step (demo_jobs 1) (pcs 1) w = None \<and>
      master_lock (self w) \<and> (\<forall>t. in_action (pcs t) \<longrightarrow> t = 0)"
    by blast
next
  let ?pcs0 = "\<lambda>t. start_pc (demo_jobs t)"
  let ?p = "L76 (Raise (Exn ValueError too_many_msg)) :: (string, nat) pc"
  have r0: "reachable demo_jobs demo_world (demo_world, ?pcs0)"
    by (rule reachable.start)
  have "map_option fst (run_alone 33 (demo_jobs 0) (?pcs0 0) demo_world) = Some ?p"
    by code_simp
  then obtain w where s: "run_alone 33 (demo_jobs 0) (?pcs0 0) demo_world = Some (?p, w)"
    by auto
  let ?pcs = "?pcs0(0 := ?p)"
  from reachable_run_alone [OF r0 s] have r: "reachable demo_jobs demo_world (w, ?pcs)" .
  have k: "keys_have_locks demo_world"
    by (simp add: keys_have_locks_def demo_world_def)
  have j: "demo_jobs 0 = ExecJob demo_sid always_busy"
    by (simp add: demo_jobs_def)
  have p: "?pcs 0 = ?p" by simp
  from lock_order_and_mutual_exclusion [where jobs = demo_jobs and ws = demo_world
      and ?w0.0 = w and pcs = ?pcs and ?t1.0 = 0 and session_id = demo_sid
      and conn = "''conn''" and w = demo_world and action = always_busy
      and sid = demo_sid and a = always_busy
      and res = "Raise (Exn ValueError too_many_msg)",
      THEN conjunct2, THEN conjunct2, rule_format, OF conjI [OF k conjI [OF r j]]]
  have "\<exists>w1. thread_step (demo_jobs 0) (?pcs 0) w = Some (L77 (Raise (Exn ValueError too_many_msg)), w1) \<and>
      session_lock (self w1) demo_sid = Some False"
    using p by blast
  then obtain w1 where
    "thread_step (demo_jobs 0) (?pcs 0) w = Some (L77 (Raise (Exn ValueError too_many_msg)), w1)"
    "session_lock (self w1) demo_sid = Some False"
    by blast
  with r p
  have "reachable demo_jobs demo_world (w, ?pcs) \<and>
      ?pcs 0 = L76 (Raise (Exn ValueError too_many_msg)) \<and>
      thread_step (demo_jobs 0) (?pcs 0) w =
        Some (L77 (Raise (Exn ValueError too_many_msg)), w1) \<and>
      session_lock (self w1) demo_sid = Some False"
    by (intro conjI)
  then show "\<exists>w pcs w1. reachable demo_jobs demo_world (w, pcs) \<and>
      pcs 0 = L76 (Raise (Exn ValueError too_many_msg)) \<and>
      thread_step (demo_jobs 0) (pcs 0) w =
        Some (L77 (Raise (Exn ValueError too_many_msg)), w1) \<and>
      session_lock (self w1) demo_sid = Some False"
    by blast
qed

end
